theory Spec2Isabelle
  imports Main
begin

section \<open>Package manager support of QDirStat (PkgManager.cpp)\<close>

text \<open>
  A shallow embedding of \<^verbatim>\<open>src/PkgManager.cpp\<close>: the three package manager
  back ends (dpkg, rpm, pacman) and the \<^verbatim>\<open>PkgQuery\<close> singleton that asks them
  in turn and caches the owner of each path. A \<^verbatim>\<open>QString\<close> is a \<open>string\<close>, a
  \<^verbatim>\<open>QStringList\<close> a \<open>string list\<close>. Log output (\<^verbatim>\<open>logInfo\<close>, \<^verbatim>\<open>logDebug\<close>,
  \<^verbatim>\<open>logError\<close>) changes no result and is left out.
\<close>

subsection \<open>The QString operations the file uses\<close>

text \<open>
  \<^verbatim>\<open>QString::contains( str )\<close>: \<open>sub\<close> occurs in \<open>s\<close> as a contiguous,
  case-sensitive substring.
\<close>

fun QString_contains :: "string \<Rightarrow> string \<Rightarrow> bool" where
  "QString_contains [] sub = (sub = [])"
| "QString_contains (c # cs) sub =
     (take (length sub) (c # cs) = sub \<or> QString_contains cs sub)"

text \<open>
  \<^verbatim>\<open>QString::split( sep, QString::KeepEmptyParts )\<close> for a separator of one
  character, which is all the file uses (\<^verbatim>\<open>"\n"\<close> and \<^verbatim>\<open>" "\<close>): the string is
  cut at every occurrence of the separator and empty fields are kept, so the
  empty string gives one empty field.
\<close>

fun QString_split :: "char \<Rightarrow> string \<Rightarrow> string list" where
  "QString_split sep [] = [[]]"
| "QString_split sep (c # cs) =
     (if c = sep then [] # QString_split sep cs
      else (case QString_split sep cs of
              [] \<Rightarrow> [[c]]
            | f # fs \<Rightarrow> (c # f) # fs))"

text \<open>
  \<^verbatim>\<open>QString::section( sep, 0, 0 )\<close>: the first of the fields that \<open>sep\<close>
  separates (empty fields count).
\<close>

definition QString_section_0_0 :: "char \<Rightarrow> string \<Rightarrow> string" where
  "QString_section_0_0 sep s =
     (case QString_split sep s of [] \<Rightarrow> [] | f # fs \<Rightarrow> f)"

text \<open>
  \<^verbatim>\<open>QString::remove( QRegExp( "^.*" + marker ) )\<close> for a literal \<open>marker\<close>. The
  pattern is anchored at the start of the string, \<^verbatim>\<open>.\<close> matches every character
  and \<^verbatim>\<open>*\<close> is greedy, so the match is the longest prefix that ends with the
  marker: everything up to and including the last occurrence of the marker.
  \<open>greedyPrefixRest\<close> gives the text behind that match, or \<open>None\<close> when the
  pattern does not match; without a match \<^verbatim>\<open>remove\<close> leaves the string as it is.
\<close>

fun greedyPrefixRest :: "string \<Rightarrow> string \<Rightarrow> string option" where
  "greedyPrefixRest marker [] = (if marker = [] then Some [] else None)"
| "greedyPrefixRest marker (c # cs) =
     (case greedyPrefixRest marker cs of
        Some r \<Rightarrow> Some r
      | None \<Rightarrow>
          if take (length marker) (c # cs) = marker
          then Some (drop (length marker) (c # cs))
          else None)"

definition QString_remove_upto :: "string \<Rightarrow> string \<Rightarrow> string" where
  "QString_remove_upto marker s =
     (case greedyPrefixRest marker s of None \<Rightarrow> s | Some r \<Rightarrow> r)"

subsection \<open>SysUtil and PkgInfo\<close>

text \<open>
  \<^verbatim>\<open>SysUtil.h\<close> is not part of the file. Its three functions are taken as
  parameters: \<open>runCommand cmd args\<close> gives the output of the command and its exit
  code, \<open>tryRunCommand cmdLine pattern\<close> tells whether the output of the command
  line matches the regular expression, \<open>haveCommand cmd\<close> whether the binary
  exists. A value of \<open>SysUtil\<close> is the system at one moment.
\<close>

record SysUtil =
  runCommand :: "string \<Rightarrow> string list \<Rightarrow> string \<times> int"
  tryRunCommand :: "string \<Rightarrow> string \<Rightarrow> bool"
  haveCommand :: "string \<Rightarrow> bool"

text \<open>
  Modelled from the spec: \<^verbatim>\<open>PkgInfo\<close> (declared in \<^verbatim>\<open>PkgInfo.h\<close>, not part of
  the file) is the spec's PackageRecord of name, version and architecture;
  \<open>PkgInfo_new\<close> is the constructor \<^verbatim>\<open>PkgInfo( name, version, arch )\<close>.
\<close>

record PkgInfo =
  pkgName :: string
  pkgVersion :: string
  pkgArch :: string

definition PkgInfo_new :: "string \<Rightarrow> string \<Rightarrow> string \<Rightarrow> PkgInfo" where
  "PkgInfo_new n v a = \<lparr>pkgName = n, pkgVersion = v, pkgArch = a\<rparr>"

subsection \<open>The abstract class PkgManager\<close>

text \<open>
  An object of a subclass of \<^verbatim>\<open>PkgManager\<close>, seen through its virtual methods
  on a given system. \<^verbatim>\<open>PkgQuery\<close> only ever calls these methods, so a fake
  back end of a test is any value of this record.
\<close>

record PkgManager =
  name :: string
  isPrimaryPkgManager :: bool
  isAvailable :: bool
  owningPkg :: "string \<Rightarrow> string"
  installedPkg :: "PkgInfo list"
  fileList :: "PkgInfo \<Rightarrow> string list"

subsection \<open>DpkgPkgManager\<close>

definition Dpkg_isPrimaryPkgManager :: "SysUtil \<Rightarrow> bool" where
  "Dpkg_isPrimaryPkgManager sys =
     tryRunCommand sys ''/usr/bin/dpkg -S /usr/bin/dpkg'' ''^dpkg:.*''"

definition Dpkg_isAvailable :: "SysUtil \<Rightarrow> bool" where
  "Dpkg_isAvailable sys = haveCommand sys ''/usr/bin/dpkg''"

definition Dpkg_owningPkg :: "SysUtil \<Rightarrow> string \<Rightarrow> string" where
  "Dpkg_owningPkg sys path =
     (case runCommand sys ''/usr/bin/dpkg'' [''-S'', path] of
        (output, exitCode) \<Rightarrow>
          if exitCode \<noteq> 0 \<or> QString_contains output ''no path found matching pattern''
          then ''''
          else QString_section_0_0 (CHR '':'') output)"

text \<open>
  The loop of \<^verbatim>\<open>parsePkgList\<close> over the lines of the output; \<open>pkgList\<close> is
  the list built so far. \<^verbatim>\<open>takeFirst\<close> is called three times on a list of three
  fields, which gives name, architecture and version in this order.
\<close>

fun Dpkg_parseLines :: "string list \<Rightarrow> PkgInfo list \<Rightarrow> PkgInfo list" where
  "Dpkg_parseLines [] pkgList = pkgList"
| "Dpkg_parseLines (line # lines) pkgList =
     (if line \<noteq> [] then
        (case QString_split (CHR '' '') line of
           [pname, arch, version] \<Rightarrow>
             Dpkg_parseLines lines (pkgList @ [PkgInfo_new pname version arch])
         | _ \<Rightarrow> Dpkg_parseLines lines pkgList)
      else Dpkg_parseLines lines pkgList)"

definition Dpkg_parsePkgList :: "string \<Rightarrow> PkgInfo list" where
  "Dpkg_parsePkgList output = Dpkg_parseLines (QString_split (CHR 0x0A) output) []"

definition Dpkg_installedPkg :: "SysUtil \<Rightarrow> PkgInfo list" where
  "Dpkg_installedPkg sys =
     (case runCommand sys ''/usr/bin/dpkg-query''
             [''--show'', ''--showformat=${Package} ${Architecture} ${Version}\<newline>''] of
        (output, exitCode) \<Rightarrow>
          if exitCode = 0 then Dpkg_parsePkgList output else [])"

definition Dpkg_fileList :: "PkgInfo \<Rightarrow> string list" where
  "Dpkg_fileList pkg = []"

text \<open>
  \<^verbatim>\<open>name()\<close> is defined in \<^verbatim>\<open>PkgManager.h\<close>, which is not part of the file;
  the three names are those the upstream header returns. No statement below
  depends on them.
\<close>

definition DpkgPkgManager :: "SysUtil \<Rightarrow> PkgManager" where
  "DpkgPkgManager sys =
     \<lparr>name = ''dpkg'',
      isPrimaryPkgManager = Dpkg_isPrimaryPkgManager sys,
      isAvailable = Dpkg_isAvailable sys,
      owningPkg = Dpkg_owningPkg sys,
      installedPkg = Dpkg_installedPkg sys,
      fileList = Dpkg_fileList\<rparr>"

subsection \<open>RpmPkgManager\<close>

text \<open>
  The object has one member, \<^verbatim>\<open>_rpmCommand\<close>, set by the constructor. The
  methods take the system they run on as an argument of their own, since it
  need not be the system the constructor saw.
\<close>

record RpmPkgManager =
  rpmCommand :: string

definition RpmPkgManager_new :: "SysUtil \<Rightarrow> RpmPkgManager" where
  "RpmPkgManager_new sys =
     (if haveCommand sys ''/usr/bin/rpm''
      then \<lparr>rpmCommand = ''/usr/bin/rpm''\<rparr>
      else \<lparr>rpmCommand = ''/bin/rpm''\<rparr>)"

definition Rpm_isPrimaryPkgManager :: "SysUtil \<Rightarrow> RpmPkgManager \<Rightarrow> bool" where
  "Rpm_isPrimaryPkgManager sys rpm =
     tryRunCommand sys (rpmCommand rpm @ '' -qf '' @ rpmCommand rpm) ''^rpm.*''"

definition Rpm_isAvailable :: "SysUtil \<Rightarrow> RpmPkgManager \<Rightarrow> bool" where
  "Rpm_isAvailable sys rpm = haveCommand sys (rpmCommand rpm)"

definition Rpm_owningPkg :: "SysUtil \<Rightarrow> RpmPkgManager \<Rightarrow> string \<Rightarrow> string" where
  "Rpm_owningPkg sys rpm path =
     (case runCommand sys (rpmCommand rpm) [''-qf'', ''--queryformat'', ''%{NAME}'', path] of
        (output, exitCode) \<Rightarrow>
          if exitCode \<noteq> 0 \<or> QString_contains output ''not owned by any package''
          then ''''
          else output)"

text \<open>
  Modelled from the spec: the file defines neither \<^verbatim>\<open>installedPkg\<close> nor
  \<^verbatim>\<open>fileList\<close> for rpm and pacman, so both inherit them from \<^verbatim>\<open>PkgManager.h\<close>,
  which is not part of the file; the spec gives the empty list for an operation
  a back end does not support.
\<close>

definition PkgManager_installedPkg_default :: "PkgInfo list" where
  "PkgManager_installedPkg_default = []"

definition PkgManager_fileList_default :: "PkgInfo \<Rightarrow> string list" where
  "PkgManager_fileList_default pkg = []"

definition RpmPkgManager_obj :: "SysUtil \<Rightarrow> RpmPkgManager \<Rightarrow> PkgManager" where
  "RpmPkgManager_obj sys rpm =
     \<lparr>name = ''rpm'',
      isPrimaryPkgManager = Rpm_isPrimaryPkgManager sys rpm,
      isAvailable = Rpm_isAvailable sys rpm,
      owningPkg = Rpm_owningPkg sys rpm,
      installedPkg = PkgManager_installedPkg_default,
      fileList = PkgManager_fileList_default\<rparr>"

subsection \<open>PacManPkgManager\<close>

definition PacMan_isPrimaryPkgManager :: "SysUtil \<Rightarrow> bool" where
  "PacMan_isPrimaryPkgManager sys =
     tryRunCommand sys ''/usr/bin/pacman -Qo /usr/bin/pacman'' ''.*is owned by pacman.*''"

definition PacMan_isAvailable :: "SysUtil \<Rightarrow> bool" where
  "PacMan_isAvailable sys = haveCommand sys ''/usr/bin/pacman''"

definition PacMan_owningPkg :: "SysUtil \<Rightarrow> string \<Rightarrow> string" where
  "PacMan_owningPkg sys path =
     (case runCommand sys ''/usr/bin/pacman'' [''-Qo'', path] of
        (output, exitCode) \<Rightarrow>
          if exitCode \<noteq> 0 \<or> QString_contains output ''No package owns''
          then ''''
          else QString_section_0_0 (CHR '' '')
                 (QString_remove_upto ''is owned by '' output))"

definition PacManPkgManager :: "SysUtil \<Rightarrow> PkgManager" where
  "PacManPkgManager sys =
     \<lparr>name = ''pacman'',
      isPrimaryPkgManager = PacMan_isPrimaryPkgManager sys,
      isAvailable = PacMan_isAvailable sys,
      owningPkg = PacMan_owningPkg sys,
      installedPkg = PkgManager_installedPkg_default,
      fileList = PkgManager_fileList_default\<rparr>"

subsection \<open>QCache\<close>

text \<open>
  Modelled from the spec: \<^verbatim>\<open>QCache\<close> is a class of the Qt library and not part
  of the file. The spec's Query Cache is a store bounded by cost that evicts
  entries when an insertion exceeds its capacity, and leaves open which
  resident entry goes first. The model keeps the nodes in a list, most recently
  used first, each node with its key, its object and its cost, and takes the
  choice of the entry to evict as the field \<open>victim\<close>: it is given the resident
  nodes and names the position of the one to drop. Qt drops the last node of
  the list, the least recently used one (\<open>lru\<close>).
\<close>

record QCache =
  mx :: int
  nodes :: "(string \<times> string \<times> int) list"
  victim :: "(string \<times> string \<times> int) list \<Rightarrow> nat"

definition lru :: "(string \<times> string \<times> int) list \<Rightarrow> nat" where
  "lru ns = length ns - 1"

definition totalCost :: "(string \<times> string \<times> int) list \<Rightarrow> int" where
  "totalCost ns = sum_list (map (\<lambda>n. snd (snd n)) ns)"

definition unlink :: "nat \<Rightarrow> 'a list \<Rightarrow> 'a list" where
  "unlink i ns = take i ns @ drop (Suc i) ns"

text \<open>
  \<^verbatim>\<open>trim( m )\<close>: as long as there is a node and the total cost is above \<open>m\<close>,
  one node is unlinked.
\<close>

function trim :: "((string \<times> string \<times> int) list \<Rightarrow> nat) \<Rightarrow> int \<Rightarrow>
    (string \<times> string \<times> int) list \<Rightarrow> (string \<times> string \<times> int) list" where
  "trim pol m ns =
     (if ns \<noteq> [] \<and> m < totalCost ns
      then trim pol m (unlink (pol ns mod length ns) ns)
      else ns)"
  by pat_completeness auto
termination
proof (relation "measure (\<lambda>(pol, m, ns). length ns)")
  fix pol :: "(string \<times> string \<times> int) list \<Rightarrow> nat"
  fix m :: int and ns :: "(string \<times> string \<times> int) list"
  assume "ns \<noteq> [] \<and> m < totalCost ns"
  then have "pol ns mod length ns < length ns"
    by simp
  then show "((pol, m, unlink (pol ns mod length ns) ns), (pol, m, ns))
      \<in> measure (\<lambda>(pol, m, ns). length ns)"
    by (simp add: unlink_def)
qed simp

declare trim.simps [simp del]

definition QCache_new :: "((string \<times> string \<times> int) list \<Rightarrow> nat) \<Rightarrow> QCache" where
  "QCache_new pol = \<lparr>mx = 100, nodes = [], victim = pol\<rparr>"

definition QCache_setMaxCost :: "QCache \<Rightarrow> int \<Rightarrow> QCache" where
  "QCache_setMaxCost c m = c\<lparr>mx := m, nodes := trim (victim c) m (nodes c)\<rparr>"

definition QCache_contains :: "QCache \<Rightarrow> string \<Rightarrow> bool" where
  "QCache_contains c k = (map_of (nodes c) k \<noteq> None)"

definition QCache_remove :: "QCache \<Rightarrow> string \<Rightarrow> QCache" where
  "QCache_remove c k = c\<lparr>nodes := filter (\<lambda>n. fst n \<noteq> k) (nodes c)\<rparr>"

text \<open>
  \<^verbatim>\<open>operator[]\<close>: the object stored under the key, or no object (a null
  pointer in Qt). A node that is found becomes the most recently used one.
\<close>

definition QCache_object :: "QCache \<Rightarrow> string \<Rightarrow> string option \<times> QCache" where
  "QCache_object c k =
     (case map_of (nodes c) k of
        None \<Rightarrow> (None, c)
      | Some (v, cost) \<Rightarrow>
          (Some v, c\<lparr>nodes := (k, v, cost) # filter (\<lambda>n. fst n \<noteq> k) (nodes c)\<rparr>))"

text \<open>
  \<^verbatim>\<open>insert( key, object, cost )\<close>: an old node of the key is removed; an
  object that costs more than the maximum is not stored; otherwise the cache is
  trimmed to make room and the new node becomes the most recently used one.
\<close>

definition QCache_insert :: "QCache \<Rightarrow> string \<Rightarrow> string \<Rightarrow> int \<Rightarrow> bool \<times> QCache" where
  "QCache_insert c k v cost =
     (let c1 = QCache_remove c k in
      if mx c1 < cost then (False, c1)
      else (True, c1\<lparr>nodes := (k, v, cost) # trim (victim c1) (mx c1 - cost) (nodes c1)\<rparr>))"

subsection \<open>PkgQuery\<close>

definition CACHE_SIZE :: int where
  "CACHE_SIZE = 500"

definition CACHE_COST :: int where
  "CACHE_COST = 1"

record PkgQuery =
  pkgManagers :: "PkgManager list"
  secondaryPkgManagers :: "PkgManager list"
  cache :: QCache

text \<open>Dereferencing a null pointer is the one way the file can fail.\<close>

datatype error = NullPointer

definition checkPkgManager :: "PkgQuery \<Rightarrow> PkgManager \<Rightarrow> PkgQuery" where
  "checkPkgManager q pkgManager =
     (if isPrimaryPkgManager pkgManager
      then q\<lparr>pkgManagers := pkgManagers q @ [pkgManager]\<rparr>
      else if isAvailable pkgManager
      then q\<lparr>secondaryPkgManagers := secondaryPkgManagers q @ [pkgManager]\<rparr>
      else q)"

definition checkPkgManagers :: "SysUtil \<Rightarrow> PkgQuery \<Rightarrow> PkgQuery" where
  "checkPkgManagers sys q =
     (let q1 = checkPkgManager q (DpkgPkgManager sys);
          q2 = checkPkgManager q1 (RpmPkgManager_obj sys (RpmPkgManager_new sys));
          q3 = checkPkgManager q2 (PacManPkgManager sys)
      in q3\<lparr>pkgManagers := pkgManagers q3 @ secondaryPkgManagers q3,
             secondaryPkgManagers := []\<rparr>)"

text \<open>
  The constructor. The choice of the cache's victim is a parameter; Qt's cache
  is \<open>PkgQuery_new lru\<close>.
\<close>

definition PkgQuery_new :: "((string \<times> string \<times> int) list \<Rightarrow> nat) \<Rightarrow> SysUtil \<Rightarrow> PkgQuery" where
  "PkgQuery_new pol sys =
     checkPkgManagers sys
       \<lparr>pkgManagers = [], secondaryPkgManagers = [],
        cache = QCache_setMaxCost (QCache_new pol) CACHE_SIZE\<rparr>"

definition foundSupportedPkgManager :: "PkgQuery \<Rightarrow> bool" where
  "foundSupportedPkgManager q = (pkgManagers q \<noteq> [])"

text \<open>
  The \<^verbatim>\<open>foreach\<close> loop of \<^verbatim>\<open>getOwningPackage\<close>. \<open>pkg\<close> is the local variable
  of this name; \<open>called\<close> lists, in the order of the calls, the back ends whose
  \<^verbatim>\<open>owningPkg\<close> has been called so far.
\<close>

fun getOwningPackage_loop ::
    "PkgManager list \<Rightarrow> string \<Rightarrow> string \<Rightarrow> PkgManager list \<Rightarrow> string \<times> PkgManager list" where
  "getOwningPackage_loop [] path pkg called = (pkg, called)"
| "getOwningPackage_loop (pkgManager # rest) path pkg called =
     (let pkg' = owningPkg pkgManager path in
      if pkg' \<noteq> [] then (pkg', called @ [pkgManager])
      else getOwningPackage_loop rest path pkg' (called @ [pkgManager]))"

text \<open>
  \<^verbatim>\<open>getOwningPackage\<close> gives the package, the back ends it called and the new
  state of the object.
\<close>

definition getOwningPackage ::
    "PkgQuery \<Rightarrow> string \<Rightarrow> error + (string \<times> PkgManager list \<times> PkgQuery)" where
  "getOwningPackage q path =
     (if QCache_contains (cache q) path then
        (case QCache_object (cache q) path of
           (None, c) \<Rightarrow> Inl NullPointer
         | (Some pkg, c) \<Rightarrow> Inr (pkg, [], q\<lparr>cache := c\<rparr>))
      else
        (case getOwningPackage_loop (pkgManagers q) path [] [] of
           (pkg, called) \<Rightarrow>
             Inr (pkg, called,
                  q\<lparr>cache := snd (QCache_insert (cache q) path pkg CACHE_COST)\<rparr>)))"

text \<open>The loop of \<^verbatim>\<open>getInstalledPkg\<close>; \<open>pkgList\<close> is the list built so far.\<close>

fun getInstalledPkg_loop :: "PkgManager list \<Rightarrow> PkgInfo list \<Rightarrow> PkgInfo list" where
  "getInstalledPkg_loop [] pkgList = pkgList"
| "getInstalledPkg_loop (pkgManager # rest) pkgList =
     getInstalledPkg_loop rest (pkgList @ installedPkg pkgManager)"

definition getInstalledPkg :: "PkgQuery \<Rightarrow> PkgInfo list" where
  "getInstalledPkg q = getInstalledPkg_loop (pkgManagers q) []"

text \<open>
  The loop of \<^verbatim>\<open>getFileList\<close>, with the back ends whose \<^verbatim>\<open>fileList\<close> has been
  called so far.
\<close>

fun getFileList_loop ::
    "PkgManager list \<Rightarrow> PkgInfo \<Rightarrow> PkgManager list \<Rightarrow> string list \<times> PkgManager list" where
  "getFileList_loop [] pkg called = ([], called)"
| "getFileList_loop (pkgManager # rest) pkg called =
     (let fl = fileList pkgManager pkg in
      if fl \<noteq> [] then (fl, called @ [pkgManager])
      else getFileList_loop rest pkg (called @ [pkgManager]))"

definition getFileList :: "PkgQuery \<Rightarrow> PkgInfo \<Rightarrow> string list \<times> PkgManager list" where
  "getFileList q pkg = getFileList_loop (pkgManagers q) pkg []"

text \<open>
  A run of the process: the paths are looked up one after the other. The result
  lists what each call returned and which back ends it called.
\<close>

fun owningPkgs ::
    "PkgQuery \<Rightarrow> string list \<Rightarrow> error + ((string \<times> PkgManager list) list \<times> PkgQuery)" where
  "owningPkgs q [] = Inr ([], q)"
| "owningPkgs q (path # paths) =
     (case getOwningPackage q path of
        Inl e \<Rightarrow> Inl e
      | Inr (pkg, called, q') \<Rightarrow>
          (case owningPkgs q' paths of
             Inl e \<Rightarrow> Inl e
           | Inr (rs, q'') \<Rightarrow> Inr ((pkg, called) # rs, q'')))"

subsection \<open>Invariants of the cache\<close>

text \<open>
  Every node of the ownership cache was inserted with \<^verbatim>\<open>CACHE_COST\<close>; the
  keys are distinct; the maximum cost is \<^verbatim>\<open>CACHE_SIZE\<close> and the nodes do not
  exceed it.
\<close>

definition costs_ok :: "(string \<times> string \<times> int) list \<Rightarrow> bool" where
  "costs_ok ns = (\<forall>n \<in> set ns. snd (snd n) = CACHE_COST)"

definition cache_ok :: "QCache \<Rightarrow> bool" where
  "cache_ok c =
     (mx c = CACHE_SIZE \<and> costs_ok (nodes c) \<and> distinct (map fst (nodes c)) \<and>
      int (length (nodes c)) \<le> CACHE_SIZE)"

subsection \<open>The specification's wording of the two parsers\<close>

text \<open>
  The specification speaks of fields and tokens separated by whitespace. These
  definitions follow its words, to be compared with the parsers of the file:
  whitespace is a blank, a tab, a line feed, a vertical tab, a form feed or a
  carriage return, and the fields of a string are its maximal runs of other
  characters.
\<close>

definition isSpace :: "char \<Rightarrow> bool" where
  "isSpace c = (c = CHR '' '' \<or> c = CHR 0x09 \<or> c = CHR 0x0A \<or> c = CHR 0x0B \<or>
                c = CHR 0x0C \<or> c = CHR 0x0D)"

fun spec_fields_from :: "string \<Rightarrow> string \<Rightarrow> string list" where
  "spec_fields_from [] w = (if w = [] then [] else [w])"
| "spec_fields_from (c # cs) w =
     (if isSpace c then (if w = [] then spec_fields_from cs [] else w # spec_fields_from cs [])
      else spec_fields_from cs (w @ [c]))"

definition spec_fields :: "string \<Rightarrow> string list" where
  "spec_fields s = spec_fields_from s []"

text \<open>
  One record for each line with exactly three whitespace-separated fields, every
  other line skipped.
\<close>

definition spec_parsePkgList :: "string \<Rightarrow> PkgInfo list" where
  "spec_parsePkgList output =
     concat (map (\<lambda>line. case spec_fields line of
                            [pname, arch, version] \<Rightarrow> [PkgInfo_new pname version arch]
                          | _ \<Rightarrow> [])
                 (QString_split (CHR 0x0A) output))"

text \<open>
  The first whitespace-delimited token behind the prefix
  \<^verbatim>\<open><path> is owned by \<close>; \<open>None\<close> for an output without this prefix, of which
  the specification says nothing.
\<close>

definition spec_pacmanOwner :: "string \<Rightarrow> string \<Rightarrow> string option" where
  "spec_pacmanOwner path output =
     (let prefix = path @ '' is owned by '' in
      if take (length prefix) output = prefix
      then (case spec_fields (drop (length prefix) output) of
              [] \<Rightarrow> Some []
            | token # rest \<Rightarrow> Some token)
      else None)"

subsection \<open>Systems, back ends and paths of the examples\<close>

text \<open>A Debian system: dpkg owns its own binary and every path belongs to coreutils.\<close>

definition dpkg_system :: SysUtil where
  "dpkg_system =
     \<lparr>runCommand = (\<lambda>cmd args. (''coreutils: '' @ last args, 0)),
      tryRunCommand = (\<lambda>cmdLine pattern. cmdLine = ''/usr/bin/dpkg -S /usr/bin/dpkg''),
      haveCommand = (\<lambda>cmd. cmd = ''/usr/bin/dpkg'')\<rparr>"

text \<open>An RPM system that also has dpkg installed, and no pacman.\<close>

definition rpm_system :: SysUtil where
  "rpm_system =
     \<lparr>runCommand = (\<lambda>cmd args. ('''', 1)),
      tryRunCommand = (\<lambda>cmdLine pattern. cmdLine = ''/usr/bin/rpm -qf /usr/bin/rpm''),
      haveCommand = (\<lambda>cmd. cmd = ''/usr/bin/rpm'' \<or> cmd = ''/usr/bin/dpkg'')\<rparr>"

text \<open>A system without any of the binaries, on which every command fails.\<close>

definition bare_system :: SysUtil where
  "bare_system =
     \<lparr>runCommand = (\<lambda>cmd args.
        if cmd = ''/usr/bin/dpkg''
        then (''dpkg-query: no path found matching pattern /nowhere'', 1)
        else if cmd = ''/usr/bin/pacman''
        then (''error: No package owns /nowhere'', 1)
        else (''file /nowhere is not owned by any package'', 1)),
      tryRunCommand = (\<lambda>cmdLine pattern. False),
      haveCommand = (\<lambda>cmd. False)\<rparr>"

text \<open>An Arch system, with the sample output of the comment in \<^verbatim>\<open>owningPkg\<close>.\<close>

definition pacman_system :: SysUtil where
  "pacman_system =
     \<lparr>runCommand = (\<lambda>cmd args. (last args @ '' is owned by pacman 5.1.1-3'', 0)),
      tryRunCommand = (\<lambda>cmdLine pattern. cmdLine = ''/usr/bin/pacman -Qo /usr/bin/pacman''),
      haveCommand = (\<lambda>cmd. cmd = ''/usr/bin/pacman'')\<rparr>"

text \<open>A pacman that separates the package from its version by a tab.\<close>

definition pacman_tab_system :: SysUtil where
  "pacman_tab_system =
     \<lparr>runCommand = (\<lambda>cmd args. (last args @ '' is owned by pkg'' @ [CHR 0x09] @ ''1.0'', 0)),
      tryRunCommand = (\<lambda>cmdLine pattern. False),
      haveCommand = (\<lambda>cmd. False)\<rparr>"

definition tab_line :: string where
  "tab_line = ''pkgA'' @ [CHR 0x09] @ ''amd64'' @ [CHR 0x09] @ ''1.0''"

text \<open>
  A fake back end that gives the same owner for every path, and a fixed list of
  packages and of files.
\<close>

definition fakePkgManager :: "string \<Rightarrow> string \<Rightarrow> PkgInfo list \<Rightarrow> string list \<Rightarrow> PkgManager" where
  "fakePkgManager n owner pkgs files =
     \<lparr>name = n, isPrimaryPkgManager = True, isAvailable = True,
      owningPkg = (\<lambda>path. owner), installedPkg = pkgs, fileList = (\<lambda>pkg. files)\<rparr>"

definition backendA :: PkgManager where
  "backendA = fakePkgManager ''A'' ''pkgA'' [PkgInfo_new ''x'' ''1.0'' ''amd64''] []"

definition backendB :: PkgManager where
  "backendB = fakePkgManager ''B'' ''pkgB'' [PkgInfo_new ''x'' ''1.0'' ''amd64''] []"

definition backendC :: PkgManager where
  "backendC = fakePkgManager ''C'' '''' [] [''a'', ''b'']"

definition two_backends :: PkgQuery where
  "two_backends =
     \<lparr>pkgManagers = [backendA, backendB], secondaryPkgManagers = [],
      cache = QCache_setMaxCost (QCache_new lru) CACHE_SIZE\<rparr>"

text \<open>\<open>two_backends\<close> after the owner of \<^verbatim>\<open>/bin/sh\<close> has been cached.\<close>

definition cached_state :: PkgQuery where
  "cached_state =
     two_backends\<lparr>cache := (cache two_backends)\<lparr>nodes := [(''/bin/sh'', ''pkgA'', 1)]\<rparr>\<rparr>"

text \<open>Two back ends without a file list before one that has \<^verbatim>\<open>a\<close> and \<^verbatim>\<open>b\<close>.\<close>

definition three_backends :: PkgQuery where
  "three_backends =
     \<lparr>pkgManagers = [backendA, backendB, backendC], secondaryPkgManagers = [],
      cache = QCache_setMaxCost (QCache_new lru) CACHE_SIZE\<rparr>"

text \<open>As many distinct paths as wanted: \<^verbatim>\<open>/\<close>, \<^verbatim>\<open>/a\<close>, \<^verbatim>\<open>/aa\<close> and so on.\<close>

definition other_path :: "nat \<Rightarrow> string" where
  "other_path n = CHR ''/'' # replicate n (CHR ''a'')"

definition other_paths :: "nat \<Rightarrow> string list" where
  "other_paths n = map other_path [0..<n]"

section \<open>Lemmas\<close>

subsection \<open>Facts about the QString operations\<close>

lemma QString_contains_iff:
  "QString_contains s sub \<longleftrightarrow> (\<exists>pre post. s = pre @ sub @ post)"
proof (induction s)
  case Nil
  then show ?case by auto
next
  case (Cons c cs)
  show ?case
  proof
    assume "QString_contains (c # cs) sub"
    then consider "take (length sub) (c # cs) = sub" | "QString_contains cs sub"
      by auto
    then show "\<exists>pre post. c # cs = pre @ sub @ post"
    proof cases
      case 1
      then have "c # cs = [] @ sub @ drop (length sub) (c # cs)"
        by (metis append_Nil append_take_drop_id)
      then show ?thesis by blast
    next
      case 2
      then obtain pre post where "cs = pre @ sub @ post"
        using Cons.IH by blast
      then have "c # cs = (c # pre) @ sub @ post" by simp
      then show ?thesis by blast
    qed
  next
    assume "\<exists>pre post. c # cs = pre @ sub @ post"
    then obtain pre post where eq: "c # cs = pre @ sub @ post" by blast
    show "QString_contains (c # cs) sub"
    proof (cases pre)
      case Nil
      then have "take (length sub) (c # cs) = sub" using eq by simp
      then show ?thesis by simp
    next
      case (Cons d pre')
      then have "cs = pre' @ sub @ post" using eq by simp
      then have "QString_contains cs sub" using Cons.IH by blast
      then show ?thesis by simp
    qed
  qed
qed

lemma QString_split_nonempty: "QString_split sep s \<noteq> []"
  by (induction s) (auto split: list.splits)

lemma length_QString_split: "length (QString_split sep s) = Suc (count_list s sep)"
  by (induction s) (auto split: list.splits simp: QString_split_nonempty)

lemma QString_split_no_sep: "f \<in> set (QString_split sep s) \<Longrightarrow> sep \<notin> set f"
  by (induction s arbitrary: f) (auto split: list.splits if_splits)

lemma QString_split_hd: "QString_section_0_0 sep s = takeWhile (\<lambda>c. c \<noteq> sep) s"
  unfolding QString_section_0_0_def
  by (induction s) (auto split: list.splits simp: QString_split_nonempty)

lemma Dpkg_parseLines_eq:
  "Dpkg_parseLines lines pkgList = pkgList @
     map (\<lambda>line. PkgInfo_new (QString_split (CHR '' '') line ! 0)
                              (QString_split (CHR '' '') line ! 2)
                              (QString_split (CHR '' '') line ! 1))
         (filter (\<lambda>line. line \<noteq> [] \<and> length (QString_split (CHR '' '') line) = 3) lines)"
  by (induction lines arbitrary: pkgList) (auto split: list.splits)

lemma greedyPrefixRest_append:
  assumes "greedyPrefixRest marker (tl (marker @ rest)) = None" and "marker \<noteq> []"
  shows "greedyPrefixRest marker (pre @ marker @ rest) = Some rest"
proof (induction pre)
  case Nil
  obtain c cs where m: "marker @ rest = c # cs"
    using assms(2) by (cases "marker @ rest") auto
  then have "greedyPrefixRest marker cs = None" using assms(1) by simp
  moreover have "take (length marker) (c # cs) = marker" "drop (length marker) (c # cs) = rest"
    using m [symmetric] by simp_all
  ultimately have "greedyPrefixRest marker (c # cs) = Some rest" by simp
  then show ?case using m by simp
next
  case (Cons p pre)
  then show ?case by simp
qed

lemma greedyPrefixRest_None:
  "marker \<noteq> [] \<Longrightarrow> \<not> QString_contains s marker \<Longrightarrow> greedyPrefixRest marker s = None"
  by (induction s) auto

lemma owned_by_no_overlap:
  "\<not> QString_contains rest ''is owned by '' \<Longrightarrow>
   \<not> QString_contains (tl (''is owned by '' @ rest)) ''is owned by ''"
  by simp

subsection \<open>The three loops of PkgQuery\<close>

lemma getOwningPackage_loop_eq:
  "getOwningPackage_loop ms path pkg called =
     (case find (\<lambda>m. owningPkg m path \<noteq> []) ms of
        None \<Rightarrow> (if ms = [] then pkg else [], called @ ms)
      | Some m \<Rightarrow> (owningPkg m path,
                   called @ takeWhile (\<lambda>m. owningPkg m path = []) ms @ [m]))"
  by (induction ms arbitrary: pkg called) (auto simp: Let_def split: option.splits)

lemma getFileList_loop_eq:
  "getFileList_loop ms pkg called =
     (case find (\<lambda>m. fileList m pkg \<noteq> []) ms of
        None \<Rightarrow> ([], called @ ms)
      | Some m \<Rightarrow> (fileList m pkg,
                   called @ takeWhile (\<lambda>m. fileList m pkg = []) ms @ [m]))"
  by (induction ms arbitrary: called) (auto simp: Let_def split: option.splits)

lemma getInstalledPkg_loop_eq:
  "getInstalledPkg_loop ms pkgList = pkgList @ concat (map installedPkg ms)"
  by (induction ms arbitrary: pkgList) auto

lemma count_list_concat:
  "count_list (concat xss) x = sum_list (map (\<lambda>xs. count_list xs x) xss)"
  by (induction xss) auto

subsection \<open>Trimming the cache\<close>

lemma totalCost_costs_ok: "costs_ok ns \<Longrightarrow> totalCost ns = int (length ns)"
  by (induction ns) (auto simp: costs_ok_def totalCost_def CACHE_COST_def)

lemma set_unlink: "set (unlink i ns) \<subseteq> set ns"
  by (auto simp: unlink_def dest: in_set_takeD in_set_dropD)

lemma length_unlink: "i < length ns \<Longrightarrow> length (unlink i ns) = length ns - 1"
  by (auto simp: unlink_def)

lemma distinct_take_drop_Suc: "distinct xs \<Longrightarrow> distinct (take i xs @ drop (Suc i) xs)"
proof (induction xs arbitrary: i)
  case Nil
  then show ?case by simp
next
  case (Cons x xs)
  show ?case
  proof (cases i)
    case 0
    then show ?thesis using Cons.prems by simp
  next
    case (Suc j)
    have "x \<notin> set (take j xs)" "x \<notin> set (drop (Suc j) xs)"
      using Cons.prems by (auto dest: in_set_takeD in_set_dropD)
    moreover have "distinct (take j xs @ drop (Suc j) xs)"
      using Cons by simp
    ultimately show ?thesis using Suc by simp
  qed
qed

lemma distinct_unlink: "distinct (map fst ns) \<Longrightarrow> distinct (map fst (unlink i ns))"
  using distinct_take_drop_Suc [of "map fst ns" i]
  by (simp add: unlink_def take_map drop_map)

lemma costs_ok_unlink: "costs_ok ns \<Longrightarrow> costs_ok (unlink i ns)"
  using set_unlink [of i ns] unfolding costs_ok_def by blast

lemma trim_step:
  "ns \<noteq> [] \<and> m < totalCost ns \<Longrightarrow>
   trim pol m ns = trim pol m (unlink (pol ns mod length ns) ns)"
  by (subst trim.simps) simp

lemma trim_stop: "\<not> (ns \<noteq> [] \<and> m < totalCost ns) \<Longrightarrow> trim pol m ns = ns"
  by (subst trim.simps) auto

lemma set_trim: "set (trim pol m ns) \<subseteq> set ns"
proof (induction pol m ns rule: trim.induct)
  case (1 pol m ns)
  show ?case
  proof (cases "ns \<noteq> [] \<and> m < totalCost ns")
    case True
    have "set (trim pol m (unlink (pol ns mod length ns) ns))
            \<subseteq> set (unlink (pol ns mod length ns) ns)"
      using "1.IH" [OF True] .
    also have "\<dots> \<subseteq> set ns" by (rule set_unlink)
    finally show ?thesis using trim_step [OF True] by simp
  next
    case False
    then show ?thesis by (simp add: trim_stop)
  qed
qed

lemma distinct_trim: "distinct (map fst ns) \<Longrightarrow> distinct (map fst (trim pol m ns))"
proof (induction pol m ns rule: trim.induct)
  case (1 pol m ns)
  show ?case
  proof (cases "ns \<noteq> [] \<and> m < totalCost ns")
    case True
    have "distinct (map fst (unlink (pol ns mod length ns) ns))"
      using "1.prems" by (rule distinct_unlink)
    then have "distinct (map fst (trim pol m (unlink (pol ns mod length ns) ns)))"
      using "1.IH" [OF True] by simp
    then show ?thesis using trim_step [OF True] by simp
  next
    case False
    then show ?thesis using "1.prems" by (simp add: trim_stop)
  qed
qed

lemma length_trim:
  "costs_ok ns \<Longrightarrow> 0 \<le> m \<Longrightarrow> length (trim pol m ns) = min (length ns) (nat m)"
proof (induction pol m ns rule: trim.induct)
  case (1 pol m ns)
  show ?case
  proof (cases "ns \<noteq> [] \<and> m < totalCost ns")
    case True
    let ?i = "pol ns mod length ns"
    have i: "?i < length ns" using True by simp
    have eq: "trim pol m ns = trim pol m (unlink ?i ns)"
      using True by (rule trim_step)
    have c: "costs_ok (unlink ?i ns)"
      using "1.prems"(1) by (rule costs_ok_unlink)
    have ih: "length (trim pol m (unlink ?i ns)) = min (length (unlink ?i ns)) (nat m)"
      using "1.IH" [OF True c "1.prems"(2)] .
    have lt: "m < int (length ns)"
      using True totalCost_costs_ok [OF "1.prems"(1)] by simp
    have "length (unlink ?i ns) = length ns - 1"
      using i by (rule length_unlink)
    then show ?thesis using eq ih lt "1.prems"(2) by simp
  next
    case False
    then have "trim pol m ns = ns" by (rule trim_stop)
    moreover have "ns = [] \<or> int (length ns) \<le> m"
      using False totalCost_costs_ok [OF "1.prems"(1)] by auto
    ultimately show ?thesis by auto
  qed
qed

lemma trim_lru:
  "costs_ok ns \<Longrightarrow> 0 \<le> m \<Longrightarrow> trim lru m ns = take (nat m) ns"
proof (induction "lru" m ns rule: trim.induct)
  case (1 m ns)
  show ?case
  proof (cases "ns \<noteq> [] \<and> m < totalCost ns")
    case True
    have i: "lru ns mod length ns = length ns - 1" using True by (simp add: lru_def)
    have u: "unlink (lru ns mod length ns) ns = butlast ns"
      using True by (simp add: i unlink_def butlast_conv_take)
    have eq: "trim lru m ns = trim lru m (butlast ns)"
      using trim_step [OF True, of lru] u by simp
    have c: "costs_ok (unlink (lru ns mod length ns) ns)"
      using "1.prems"(1) by (rule costs_ok_unlink)
    have ih: "trim lru m (butlast ns) = take (nat m) (butlast ns)"
      using "1.hyps" [OF True c "1.prems"(2)] u by simp
    have lt: "m < int (length ns)"
      using True totalCost_costs_ok [OF "1.prems"(1)] by simp
    then have "nat m \<le> length ns - 1" using "1.prems"(2) by simp
    then have "take (nat m) (butlast ns) = take (nat m) ns"
      by (simp add: butlast_conv_take min_def)
    then show ?thesis using eq ih by simp
  next
    case False
    then have "trim lru m ns = ns" by (rule trim_stop)
    moreover have "ns = [] \<or> int (length ns) \<le> m"
      using False totalCost_costs_ok [OF "1.prems"(1)] by auto
    ultimately show ?thesis by auto
  qed
qed

subsection \<open>Insertion and lookup in the cache\<close>

lemma map_of_None_filter:
  "map_of ns k = None \<Longrightarrow> filter (\<lambda>n. fst n \<noteq> k) ns = ns"
  by (induction ns) (auto split: if_splits)

lemma cache_ok_new: "cache_ok (QCache_setMaxCost (QCache_new pol) CACHE_SIZE)"
  by (simp add: cache_ok_def QCache_setMaxCost_def QCache_new_def trim_stop costs_ok_def
      CACHE_SIZE_def)

lemma cache_checkPkgManagers: "cache (checkPkgManagers sys q) = cache q"
  by (simp add: checkPkgManagers_def checkPkgManager_def Let_def)

lemma cache_PkgQuery_new:
  "cache (PkgQuery_new pol sys) = QCache_setMaxCost (QCache_new pol) CACHE_SIZE"
  by (simp add: PkgQuery_new_def cache_checkPkgManagers)

lemma nodes_insert:
  "mx c = CACHE_SIZE \<Longrightarrow>
   nodes (snd (QCache_insert c k v CACHE_COST)) =
     (k, v, CACHE_COST) # trim (victim c) (CACHE_SIZE - CACHE_COST)
        (filter (\<lambda>n. fst n \<noteq> k) (nodes c))"
  by (simp add: QCache_insert_def QCache_remove_def Let_def CACHE_SIZE_def CACHE_COST_def)

lemma mx_insert: "mx (snd (QCache_insert c k v cost)) = mx c"
  by (simp add: QCache_insert_def QCache_remove_def Let_def)

lemma victim_insert: "victim (snd (QCache_insert c k v cost)) = victim c"
  by (simp add: QCache_insert_def QCache_remove_def Let_def)

lemma costs_ok_filter: "costs_ok ns \<Longrightarrow> costs_ok (filter P ns)"
  by (simp add: costs_ok_def)

lemma costs_ok_trim: "costs_ok ns \<Longrightarrow> costs_ok (trim pol m ns)"
  using set_trim [of pol m ns] unfolding costs_ok_def by blast

lemma keys_trim: "fst ` set (trim pol m ns) \<subseteq> fst ` set ns"
  using set_trim [of pol m ns] by blast

lemma cache_ok_insert:
  assumes "cache_ok c"
  shows "cache_ok (snd (QCache_insert c k v CACHE_COST))"
proof -
  let ?f = "filter (\<lambda>n. fst n \<noteq> k) (nodes c)"
  let ?t = "trim (victim c) (CACHE_SIZE - CACHE_COST) ?f"
  have m: "mx c = CACHE_SIZE" using assms by (simp add: cache_ok_def)
  have n: "nodes (snd (QCache_insert c k v CACHE_COST)) = (k, v, CACHE_COST) # ?t"
    using m by (rule nodes_insert)
  have cf: "costs_ok ?f" using assms by (simp add: cache_ok_def costs_ok_filter)
  then have ct: "costs_ok ?t" by (rule costs_ok_trim)
  have df: "distinct (map fst ?f)" using assms by (simp add: cache_ok_def distinct_map_filter)
  then have dt: "distinct (map fst ?t)" by (rule distinct_trim)
  have "k \<notin> fst ` set ?f" by auto
  then have kt: "k \<notin> fst ` set ?t" using keys_trim [of "victim c" _ ?f] by blast
  have "length ?t = min (length ?f) (nat (CACHE_SIZE - CACHE_COST))"
    using cf by (rule length_trim) (simp add: CACHE_SIZE_def CACHE_COST_def)
  then have len: "int (length ?t) \<le> CACHE_SIZE - 1"
    by (simp add: CACHE_SIZE_def CACHE_COST_def)
  show ?thesis
    unfolding cache_ok_def n mx_insert
    using m ct dt kt len by (simp add: costs_ok_def)
qed

lemma map_of_insert:
  "mx c = CACHE_SIZE \<Longrightarrow>
   map_of (nodes (snd (QCache_insert c k v CACHE_COST))) k = Some (v, CACHE_COST)"
  by (simp add: nodes_insert)

lemma length_filter_key:
  "distinct (map fst ns) \<Longrightarrow> map_of ns k = Some vc \<Longrightarrow>
   Suc (length (filter (\<lambda>n. fst n \<noteq> k) ns)) = length ns"
proof (induction ns)
  case Nil
  then show ?case by simp
next
  case (Cons n ns)
  show ?case
  proof (cases "fst n = k")
    case True
    then have "k \<notin> fst ` set ns" using Cons.prems by auto
    then have "map_of ns k = None" by (simp add: map_of_eq_None_iff)
    then have "filter (\<lambda>n. fst n \<noteq> k) ns = ns" by (rule map_of_None_filter)
    then show ?thesis using True by simp
  next
    case False
    then have "map_of ns k = Some vc" using Cons.prems by (cases n) auto
    then show ?thesis using Cons False by simp
  qed
qed

lemma cache_ok_relink:
  assumes "cache_ok c" and "map_of (nodes c) k = Some (v, cost)"
  shows "cache_ok (c\<lparr>nodes := (k, v, cost) # filter (\<lambda>n. fst n \<noteq> k) (nodes c)\<rparr>)"
proof -
  have "(k, v, cost) \<in> set (nodes c)" using assms(2) by (rule map_of_SomeD)
  then have "cost = CACHE_COST" using assms(1) by (auto simp: cache_ok_def costs_ok_def)
  moreover have "Suc (length (filter (\<lambda>n. fst n \<noteq> k) (nodes c))) = length (nodes c)"
    using assms by (auto simp: cache_ok_def intro: length_filter_key)
  ultimately show ?thesis
    using assms(1) by (auto simp: cache_ok_def costs_ok_def distinct_map_filter)
qed

subsection \<open>One call and a run of calls of getOwningPackage\<close>

lemma getOwningPackage_hit:
  assumes "map_of (nodes (cache q)) path = Some (v, cost)"
  shows "getOwningPackage q path =
    Inr (v, [], q\<lparr>cache := (cache q)\<lparr>nodes :=
      (path, v, cost) # filter (\<lambda>n. fst n \<noteq> path) (nodes (cache q))\<rparr>\<rparr>)"
  using assms by (simp add: getOwningPackage_def QCache_contains_def QCache_object_def)

lemma getOwningPackage_miss:
  assumes "map_of (nodes (cache q)) path = None"
  shows "getOwningPackage q path =
    Inr (fst (getOwningPackage_loop (pkgManagers q) path [] []),
         snd (getOwningPackage_loop (pkgManagers q) path [] []),
         q\<lparr>cache := snd (QCache_insert (cache q) path
              (fst (getOwningPackage_loop (pkgManagers q) path [] [])) CACHE_COST)\<rparr>)"
  using assms by (simp add: getOwningPackage_def QCache_contains_def split: prod.splits)

lemma miss_step:
  assumes "cache_ok (cache q)" and "map_of (nodes (cache q)) p = None"
  shows "\<exists>pkg called q'. getOwningPackage q p = Inr (pkg, called, q') \<and>
           cache_ok (cache q') \<and>
           nodes (cache q') = (p, pkg, CACHE_COST) #
              trim (victim (cache q)) (CACHE_SIZE - CACHE_COST) (nodes (cache q)) \<and>
           victim (cache q') = victim (cache q) \<and> pkgManagers q' = pkgManagers q"
proof -
  let ?pkg = "fst (getOwningPackage_loop (pkgManagers q) p [] [])"
  let ?q' = "q\<lparr>cache := snd (QCache_insert (cache q) p ?pkg CACHE_COST)\<rparr>"
  have m: "mx (cache q) = CACHE_SIZE" using assms(1) by (simp add: cache_ok_def)
  have "nodes (cache ?q') = (p, ?pkg, CACHE_COST) #
      trim (victim (cache q)) (CACHE_SIZE - CACHE_COST) (nodes (cache q))"
    using nodes_insert [OF m, of p ?pkg] map_of_None_filter [OF assms(2)] by simp
  moreover have "cache_ok (cache ?q')"
    using cache_ok_insert [OF assms(1), of p ?pkg] by simp
  moreover have "victim (cache ?q') = victim (cache q)"
    by (simp add: victim_insert)
  moreover have "pkgManagers ?q' = pkgManagers q" by simp
  ultimately show ?thesis
    using getOwningPackage_miss [OF assms(2)] by blast
qed

lemma hit_step:
  assumes "cache_ok (cache q)" and "map_of (nodes (cache q)) p = Some (v, cost)"
  shows "\<exists>q'. getOwningPackage q p = Inr (v, [], q') \<and> cache_ok (cache q') \<and>
           length (nodes (cache q')) = length (nodes (cache q)) \<and>
           map_of (nodes (cache q')) p = Some (v, cost) \<and>
           victim (cache q') = victim (cache q) \<and> pkgManagers q' = pkgManagers q"
proof -
  let ?c = "(cache q)\<lparr>nodes := (p, v, cost) # filter (\<lambda>n. fst n \<noteq> p) (nodes (cache q))\<rparr>"
  have "cache_ok ?c" using assms by (rule cache_ok_relink)
  moreover have "Suc (length (filter (\<lambda>n. fst n \<noteq> p) (nodes (cache q)))) = length (nodes (cache q))"
    using assms by (auto simp: cache_ok_def intro: length_filter_key)
  ultimately show ?thesis
    using getOwningPackage_hit [OF assms(2)] by simp
qed

lemma getOwningPackage_ok:
  assumes "cache_ok (cache q)"
  shows "\<exists>pkg called q'. getOwningPackage q p = Inr (pkg, called, q') \<and>
           cache_ok (cache q') \<and> victim (cache q') = victim (cache q) \<and>
           pkgManagers q' = pkgManagers q"
proof (cases "map_of (nodes (cache q)) p")
  case None
  then show ?thesis using miss_step [OF assms] by blast
next
  case (Some vc)
  then obtain v cost where "map_of (nodes (cache q)) p = Some (v, cost)"
    by (cases vc) simp
  then show ?thesis using hit_step [OF assms] by blast
qed

lemma owningPkgs_ok:
  "cache_ok (cache q) \<Longrightarrow>
   \<exists>rs q'. owningPkgs q ps = Inr (rs, q') \<and> cache_ok (cache q')"
proof (induction ps arbitrary: q)
  case Nil
  then show ?case by simp
next
  case (Cons p ps)
  obtain pkg called q1 where 1: "getOwningPackage q p = Inr (pkg, called, q1)"
    and ok1: "cache_ok (cache q1)"
    using getOwningPackage_ok [OF Cons.prems] by blast
  obtain rs q2 where 2: "owningPkgs q1 ps = Inr (rs, q2)" and ok2: "cache_ok (cache q2)"
    using Cons.IH [OF ok1] by blast
  have "owningPkgs q (p # ps) = Inr ((pkg, called) # rs, q2)"
    using 1 2 by simp
  then show ?case using ok2 by blast
qed

lemma take_append_take: "take n (xs @ take n ys) = take n (xs @ ys)"
  by (simp add: min_def)

lemma owningPkgs_distinct:
  "cache_ok (cache q) \<Longrightarrow> distinct ps \<Longrightarrow>
   set ps \<inter> fst ` set (nodes (cache q)) = {} \<Longrightarrow>
   \<exists>rs q'. owningPkgs q ps = Inr (rs, q') \<and> cache_ok (cache q') \<and>
     length (nodes (cache q')) = min (length (nodes (cache q)) + length ps) 500 \<and>
     pkgManagers q' = pkgManagers q \<and>
     (victim (cache q) = lru \<longrightarrow>
        map fst (nodes (cache q')) = take 500 (rev ps @ map fst (nodes (cache q))))"
proof (induction ps arbitrary: q)
  case Nil
  then have "length (nodes (cache q)) \<le> 500"
    by (simp add: cache_ok_def CACHE_SIZE_def)
  then show ?case using Nil by simp
next
  case (Cons p ps)
  let ?ns = "nodes (cache q)"
  have none: "map_of ?ns p = None"
    using Cons.prems(3) by (auto simp: map_of_eq_None_iff)
  obtain pkg called q1 where 1: "getOwningPackage q p = Inr (pkg, called, q1)"
    and ok1: "cache_ok (cache q1)"
    and n1: "nodes (cache q1) = (p, pkg, CACHE_COST) #
               trim (victim (cache q)) (CACHE_SIZE - CACHE_COST) ?ns"
    and v1: "victim (cache q1) = victim (cache q)"
    and p1: "pkgManagers q1 = pkgManagers q"
    using miss_step [OF Cons.prems(1) none] by blast
  have c: "costs_ok ?ns" using Cons.prems(1) by (simp add: cache_ok_def)
  have lt: "length (trim (victim (cache q)) (CACHE_SIZE - CACHE_COST) ?ns) = min (length ?ns) 499"
    using length_trim [OF c, of "CACHE_SIZE - CACHE_COST"]
    by (simp add: CACHE_SIZE_def CACHE_COST_def)
  have len1: "length (nodes (cache q1)) = min (length ?ns + 1) 500"
    using n1 lt by simp
  have "fst ` set (nodes (cache q1)) \<subseteq> insert p (fst ` set ?ns)"
    using n1 keys_trim [of "victim (cache q)" "CACHE_SIZE - CACHE_COST" ?ns] by auto
  then have disj: "set ps \<inter> fst ` set (nodes (cache q1)) = {}"
    using Cons.prems(2,3) by auto
  have dps: "distinct ps" using Cons.prems(2) by simp
  obtain rs q2 where 2: "owningPkgs q1 ps = Inr (rs, q2)" and ok2: "cache_ok (cache q2)"
    and len2: "length (nodes (cache q2)) = min (length (nodes (cache q1)) + length ps) 500"
    and p2: "pkgManagers q2 = pkgManagers q1"
    and lru2: "victim (cache q1) = lru \<longrightarrow>
        map fst (nodes (cache q2)) = take 500 (rev ps @ map fst (nodes (cache q1)))"
    using Cons.IH [OF ok1 dps disj] by blast
  have run: "owningPkgs q (p # ps) = Inr ((pkg, called) # rs, q2)"
    using 1 2 by simp
  have len: "length (nodes (cache q2)) = min (length ?ns + length (p # ps)) 500"
    using len1 len2 by simp
  have "map fst (nodes (cache q2)) = take 500 (rev (p # ps) @ map fst ?ns)"
    if l: "victim (cache q) = lru"
  proof -
    have "trim (victim (cache q)) (CACHE_SIZE - CACHE_COST) ?ns = take 499 ?ns"
      using trim_lru [OF c, of "CACHE_SIZE - CACHE_COST"] l
      by (simp add: CACHE_SIZE_def CACHE_COST_def)
    then have "map fst (nodes (cache q1)) = take 500 (p # map fst ?ns)"
      using n1 by (simp add: take_map)
    then have "map fst (nodes (cache q2)) = take 500 (rev ps @ take 500 (p # map fst ?ns))"
      using lru2 v1 l by simp
    also have "\<dots> = take 500 (rev ps @ p # map fst ?ns)"
      by (rule take_append_take)
    finally show ?thesis by simp
  qed
  then show ?case using run ok2 len p1 p2 by auto
qed

subsection \<open>Runs that stay within the capacity of the cache\<close>

lemma map_of_filter_other:
  "k \<noteq> p \<Longrightarrow> map_of (filter (\<lambda>n. fst n \<noteq> p) ns) k = map_of ns k"
  by (induction ns) auto

lemma map_of_relink:
  assumes "map_of ns p = Some vc"
  shows "map_of ((p, vc) # filter (\<lambda>n. fst n \<noteq> p) ns) = map_of ns"
proof
  fix k
  show "map_of ((p, vc) # filter (\<lambda>n. fst n \<noteq> p) ns) k = map_of ns k"
    using assms by (cases "k = p") (simp_all add: map_of_filter_other)
qed

lemma step_under_capacity:
  assumes "cache_ok (cache q)"
    and "card (insert p (fst ` set (nodes (cache q)))) \<le> 500"
  shows "\<exists>pkg called q'. getOwningPackage q p = Inr (pkg, called, q') \<and>
           cache_ok (cache q') \<and>
           map_of (nodes (cache q')) = (map_of (nodes (cache q)))(p \<mapsto> (pkg, CACHE_COST)) \<and>
           (\<forall>v c. map_of (nodes (cache q)) p = Some (v, c) \<longrightarrow> pkg = v \<and> called = [])"
proof (cases "map_of (nodes (cache q)) p")
  case None
  let ?ns = "nodes (cache q)"
  have "p \<notin> fst ` set ?ns" using None by (simp add: map_of_eq_None_iff)
  then have "card (fst ` set ?ns) < 500" using assms(2) by simp
  moreover have "card (fst ` set ?ns) = length ?ns"
    using assms(1) distinct_card [of "map fst ?ns"] by (simp add: cache_ok_def)
  ultimately have len: "length ?ns \<le> 499" by simp
  have "costs_ok ?ns" using assms(1) by (simp add: cache_ok_def)
  then have "totalCost ?ns = int (length ?ns)" by (rule totalCost_costs_ok)
  then have "\<not> (?ns \<noteq> [] \<and> CACHE_SIZE - CACHE_COST < totalCost ?ns)"
    using len by (simp add: CACHE_SIZE_def CACHE_COST_def)
  then have t: "trim (victim (cache q)) (CACHE_SIZE - CACHE_COST) ?ns = ?ns"
    by (rule trim_stop)
  obtain pkg called q' where "getOwningPackage q p = Inr (pkg, called, q')"
    and "cache_ok (cache q')"
    and "nodes (cache q') = (p, pkg, CACHE_COST) #
           trim (victim (cache q)) (CACHE_SIZE - CACHE_COST) ?ns"
    using miss_step [OF assms(1) None] by blast
  moreover from this t have "map_of (nodes (cache q')) = (map_of ?ns)(p \<mapsto> (pkg, CACHE_COST))"
    by simp
  ultimately show ?thesis using None by auto
next
  case (Some vc)
  obtain v c where vc: "vc = (v, c)" by (cases vc)
  let ?ns = "nodes (cache q)"
  let ?q' = "q\<lparr>cache := (cache q)\<lparr>nodes := (p, v, c) # filter (\<lambda>n. fst n \<noteq> p) ?ns\<rparr>\<rparr>"
  have s: "map_of ?ns p = Some (v, c)" using Some vc by simp
  then have "(p, v, c) \<in> set ?ns" by (rule map_of_SomeD)
  then have c: "c = CACHE_COST" using assms(1) by (auto simp: cache_ok_def costs_ok_def)
  have run: "getOwningPackage q p = Inr (v, [], ?q')"
    using s by (rule getOwningPackage_hit)
  have ok: "cache_ok (cache ?q')"
    using cache_ok_relink [OF assms(1) s] by simp
  have "map_of (nodes (cache ?q')) = map_of ?ns"
    using map_of_relink [OF s] by simp
  also have "\<dots> = (map_of ?ns)(p \<mapsto> (v, CACHE_COST))"
    using s c by (simp add: fun_upd_idem)
  finally have "map_of (nodes (cache ?q')) = (map_of ?ns)(p \<mapsto> (v, CACHE_COST))" .
  then show ?thesis using run ok s by auto
qed

lemma run_under_capacity:
  "cache_ok (cache q) \<Longrightarrow> card (fst ` set (nodes (cache q)) \<union> set ps) \<le> 500 \<Longrightarrow>
   \<exists>rs q'. owningPkgs q ps = Inr (rs, q') \<and> length rs = length ps \<and>
     (\<forall>i<length ps. \<forall>v c. map_of (nodes (cache q)) (ps ! i) = Some (v, c) \<longrightarrow>
        rs ! i = (v, [])) \<and>
     (\<forall>i j. j < i \<and> i < length ps \<and> ps ! j = ps ! i \<longrightarrow> rs ! i = (fst (rs ! j), []))"
proof (induction ps arbitrary: q)
  case Nil
  then show ?case by simp
next
  case (Cons p ps)
  let ?M = "map_of (nodes (cache q))"
  let ?K = "fst ` set (nodes (cache q))"
  have "insert p ?K \<subseteq> ?K \<union> set (p # ps)" by auto
  then have "card (insert p ?K) \<le> card (?K \<union> set (p # ps))"
    by (intro card_mono) simp_all
  then have cap: "card (insert p ?K) \<le> 500" using Cons.prems(2) by simp
  obtain pkg called q1 where 1: "getOwningPackage q p = Inr (pkg, called, q1)"
    and ok1: "cache_ok (cache q1)"
    and M1: "map_of (nodes (cache q1)) = ?M(p \<mapsto> (pkg, CACHE_COST))"
    and hit: "\<forall>v c. ?M p = Some (v, c) \<longrightarrow> pkg = v \<and> called = []"
    using step_under_capacity [OF Cons.prems(1) cap] by blast
  have "fst ` set (nodes (cache q1)) = dom (map_of (nodes (cache q1)))"
    by (simp add: dom_map_of_conv_image_fst)
  also have "\<dots> = insert p (dom ?M)" using M1 by simp
  also have "\<dots> = insert p ?K" by (simp add: dom_map_of_conv_image_fst)
  finally have "fst ` set (nodes (cache q1)) \<union> set ps = ?K \<union> set (p # ps)" by auto
  then have cap1: "card (fst ` set (nodes (cache q1)) \<union> set ps) \<le> 500"
    using Cons.prems(2) by simp
  obtain rs q2 where 2: "owningPkgs q1 ps = Inr (rs, q2)" and len: "length rs = length ps"
    and old: "\<forall>i<length ps. \<forall>v c. map_of (nodes (cache q1)) (ps ! i) = Some (v, c) \<longrightarrow>
        rs ! i = (v, [])"
    and rep: "\<forall>i j. j < i \<and> i < length ps \<and> ps ! j = ps ! i \<longrightarrow> rs ! i = (fst (rs ! j), [])"
    using Cons.IH [OF ok1 cap1] by blast
  let ?rs = "(pkg, called) # rs"
  have run: "owningPkgs q (p # ps) = Inr (?rs, q2)" using 1 2 by simp
  have A: "?rs ! i = (v, [])"
    if "i < length (p # ps)" and "?M ((p # ps) ! i) = Some (v, c)" for i v c
  proof (cases i)
    case 0
    then show ?thesis using that hit by simp
  next
    case (Suc k)
    then have k: "k < length ps" and m: "?M (ps ! k) = Some (v, c)" using that by simp_all
    have "\<exists>c'. map_of (nodes (cache q1)) (ps ! k) = Some (v, c')"
    proof (cases "ps ! k = p")
      case True
      then have "pkg = v" using m hit by simp
      then show ?thesis using M1 True by simp
    next
      case False
      then show ?thesis using M1 m by simp
    qed
    then have "rs ! k = (v, [])" using old k by blast
    then show ?thesis using Suc by simp
  qed
  have B: "?rs ! i = (fst (?rs ! j), [])"
    if ji: "j < i" and il: "i < length (p # ps)" and eq: "(p # ps) ! j = (p # ps) ! i" for i j
  proof -
    obtain k where i: "i = Suc k" using ji by (cases i) simp_all
    then have k: "k < length ps" using il by simp
    show ?thesis
    proof (cases j)
      case 0
      then have "ps ! k = p" using eq i by simp
      then have "map_of (nodes (cache q1)) (ps ! k) = Some (pkg, CACHE_COST)"
        using M1 by simp
      then have "rs ! k = (pkg, [])" using old k by blast
      then show ?thesis using i 0 by simp
    next
      case (Suc l)
      then have "l < k" "ps ! l = ps ! k" using ji eq i by simp_all
      then have "rs ! k = (fst (rs ! l), [])" using rep k by blast
      then show ?thesis using i Suc by simp
    qed
  qed
  show ?case using run len A B by (intro exI [of _ ?rs] exI [of _ q2]) auto
qed

lemma miss_asks_first:
  "take 1 (snd (getOwningPackage_loop ms path pkg [])) = take 1 ms"
  by (cases ms) (simp_all add: getOwningPackage_loop_eq split: option.splits)

subsection \<open>Facts about the examples\<close>

lemma distinct_other_paths: "distinct (other_paths n)"
  unfolding other_paths_def
  by (rule distinct_map [THEN iffD2]) (auto simp: inj_on_def other_path_def elim: replicate_eq_replicate [THEN iffD1, elim_format])

lemma usr_bin_ls_other: "''/usr/bin/ls'' \<notin> set (other_paths n)"
  by (auto simp: other_paths_def other_path_def replicate_eq_replicate Cons_replicate_eq)

lemma pkgManagers_dpkg_system:
  "pkgManagers (PkgQuery_new lru dpkg_system) = [DpkgPkgManager dpkg_system]"
  by (simp add: PkgQuery_new_def checkPkgManagers_def checkPkgManager_def Let_def
      DpkgPkgManager_def RpmPkgManager_obj_def PacManPkgManager_def
      Dpkg_isPrimaryPkgManager_def Rpm_isPrimaryPkgManager_def PacMan_isPrimaryPkgManager_def
      Dpkg_isAvailable_def Rpm_isAvailable_def PacMan_isAvailable_def RpmPkgManager_new_def
      dpkg_system_def)

lemma Dpkg_owningPkg_dpkg_system: "Dpkg_owningPkg dpkg_system ''/usr/bin/ls'' = ''coreutils''"
  by (simp add: Dpkg_owningPkg_def dpkg_system_def QString_section_0_0_def)

section \<open>The claims\<close>

text \<open>
  Claim C1, as amended. As long as the lookups made since the cache was
  created are for at most 500 distinct paths, whatever entry the cache would
  choose to evict, every lookup of a path after an earlier one of the same path
  returns the package of the earlier lookup and calls no back end. In any
  state a call returns a package, and a second call for the same path right
  after it returns the same package and calls no back end, whatever the back
  ends are by then; a path that is resident is answered from the cache without
  a call to a back end; for a path that is not resident the back ends are asked
  again, beginning with the first of the list.
\<close>

theorem ownership_cached:
  "(cache q0 = QCache_setMaxCost (QCache_new pol) CACHE_SIZE \<and> card (set paths) \<le> 500 \<longrightarrow>
      (\<exists>rs q'. owningPkgs q0 paths = Inr (rs, q') \<and> length rs = length paths \<and>
         (\<forall>i j. j < i \<and> i < length paths \<and> paths ! j = paths ! i \<longrightarrow>
            rs ! i = (fst (rs ! j), [])))) \<and>
   (mx (cache q) = CACHE_SIZE \<longrightarrow>
      (\<exists>pkg called q1. getOwningPackage q path = Inr (pkg, called, q1) \<and>
         (\<forall>ms. \<exists>q2. getOwningPackage (q1\<lparr>pkgManagers := ms\<rparr>) path = Inr (pkg, [], q2)) \<and>
         (QCache_contains (cache q) path \<longrightarrow>
            called = [] \<and> fst (QCache_object (cache q) path) = Some pkg) \<and>
         (\<not> QCache_contains (cache q) path \<longrightarrow> take 1 called = take 1 (pkgManagers q))))"
proof (intro conjI impI)
  assume "cache q0 = QCache_setMaxCost (QCache_new pol) CACHE_SIZE \<and> card (set paths) \<le> 500"
  then have fresh: "cache q0 = QCache_setMaxCost (QCache_new pol) CACHE_SIZE"
    and cap: "card (set paths) \<le> 500" by simp_all
  have ok: "cache_ok (cache q0)"
    unfolding fresh by (rule cache_ok_new)
  have "nodes (cache q0) = []"
    unfolding fresh by (simp add: QCache_setMaxCost_def QCache_new_def trim_stop)
  then have "card (fst ` set (nodes (cache q0)) \<union> set paths) \<le> 500"
    using cap by simp
  then show "\<exists>rs q'. owningPkgs q0 paths = Inr (rs, q') \<and> length rs = length paths \<and>
         (\<forall>i j. j < i \<and> i < length paths \<and> paths ! j = paths ! i \<longrightarrow>
            rs ! i = (fst (rs ! j), []))"
    using run_under_capacity [OF ok] by blast
next
  assume m: "mx (cache q) = CACHE_SIZE"
  show "\<exists>pkg called q1. getOwningPackage q path = Inr (pkg, called, q1) \<and>
         (\<forall>ms. \<exists>q2. getOwningPackage (q1\<lparr>pkgManagers := ms\<rparr>) path = Inr (pkg, [], q2)) \<and>
         (QCache_contains (cache q) path \<longrightarrow>
            called = [] \<and> fst (QCache_object (cache q) path) = Some pkg) \<and>
         (\<not> QCache_contains (cache q) path \<longrightarrow> take 1 called = take 1 (pkgManagers q))"
  proof (cases "map_of (nodes (cache q)) path")
    case None
    let ?L = "getOwningPackage_loop (pkgManagers q) path [] []"
    let ?q1 = "q\<lparr>cache := snd (QCache_insert (cache q) path (fst ?L) CACHE_COST)\<rparr>"
    have run: "getOwningPackage q path = Inr (fst ?L, snd ?L, ?q1)"
      using None by (rule getOwningPackage_miss)
    have stored: "map_of (nodes (cache ?q1)) path = Some (fst ?L, CACHE_COST)"
      using map_of_insert [OF m, of path "fst ?L"] by simp
    have again: "\<exists>q2. getOwningPackage (?q1\<lparr>pkgManagers := ms\<rparr>) path = Inr (fst ?L, [], q2)"
      for ms
      using getOwningPackage_hit [of "?q1\<lparr>pkgManagers := ms\<rparr>" path "fst ?L" CACHE_COST] stored
      by simp
    have "take 1 (snd ?L) = take 1 (pkgManagers q)"
      by (rule miss_asks_first)
    then show ?thesis using run again None by (auto simp: QCache_contains_def)
  next
    case (Some vc)
    then obtain v cost where s: "map_of (nodes (cache q)) path = Some (v, cost)"
      by (cases vc) simp
    let ?q1 = "q\<lparr>cache := (cache q)\<lparr>nodes :=
        (path, v, cost) # filter (\<lambda>n. fst n \<noteq> path) (nodes (cache q))\<rparr>\<rparr>"
    have run: "getOwningPackage q path = Inr (v, [], ?q1)"
      using s by (rule getOwningPackage_hit)
    have again: "\<exists>q2. getOwningPackage (?q1\<lparr>pkgManagers := ms\<rparr>) path = Inr (v, [], q2)" for ms
      using getOwningPackage_hit [of "?q1\<lparr>pkgManagers := ms\<rparr>" path v cost] by simp
    have "fst (QCache_object (cache q) path) = Some v"
      using s by (simp add: QCache_object_def)
    moreover have "QCache_contains (cache q) path"
      using s by (simp add: QCache_contains_def)
    ultimately show ?thesis using run again by auto
  qed
qed

text \<open>
  The theorem at \<open>two_backends\<close> for the lookups of \<^verbatim>\<open>/p\<close>, \<^verbatim>\<open>/q\<close>,
  \<^verbatim>\<open>/q\<close>, \<^verbatim>\<open>/p\<close>: the first two ask the first back end, the last two
  ask none. At \<open>cached_state\<close>, whose cache holds \<^verbatim>\<open>/bin/sh\<close>, the call
  returns the cached package and calls no back end; at \<open>two_backends\<close>, whose
  cache is empty, the first back end is asked.
\<close>

theorem ownership_cached_witness:
  "cache two_backends = QCache_setMaxCost (QCache_new lru) CACHE_SIZE \<and>
   card (set [''/p'', ''/q'', ''/q'', ''/p'']) \<le> 500 \<and>
   (\<exists>rs q'. owningPkgs two_backends [''/p'', ''/q'', ''/q'', ''/p''] = Inr (rs, q') \<and>
      rs ! 2 = (fst (rs ! 1), []) \<and> rs ! 3 = (fst (rs ! 0), [])) \<and>
   (\<exists>q'. owningPkgs two_backends [''/p'', ''/q'', ''/q'', ''/p''] =
      Inr ([(''pkgA'', [backendA]), (''pkgA'', [backendA]), (''pkgA'', []), (''pkgA'', [])],
           q')) \<and>
   mx (cache cached_state) = CACHE_SIZE \<and>
   QCache_contains (cache cached_state) ''/bin/sh'' \<and>
   (\<exists>q'. getOwningPackage cached_state ''/bin/sh'' = Inr (''pkgA'', [], q')) \<and>
   \<not> QCache_contains (cache two_backends) ''/bin/sh'' \<and>
   (\<exists>pkg called q'. getOwningPackage two_backends ''/bin/sh'' = Inr (pkg, called, q') \<and>
      take 1 called = [backendA])"
proof -
  let ?ps = "[''/p'', ''/q'', ''/q'', ''/p'']"
  have f: "cache two_backends = QCache_setMaxCost (QCache_new lru) CACHE_SIZE"
    by (simp add: two_backends_def)
  have "card (set ?ps) \<le> length ?ps" by (rule card_length)
  then have c: "card (set ?ps) \<le> 500" by simp
  obtain rs q' where run: "owningPkgs two_backends ?ps = Inr (rs, q')"
    and rep: "\<forall>i j. j < i \<and> i < length ?ps \<and> ?ps ! j = ?ps ! i \<longrightarrow> rs ! i = (fst (rs ! j), [])"
    using ownership_cached [of two_backends lru ?ps] f c by blast
  have "rs ! 2 = (fst (rs ! 1), [])"
    using rep [rule_format, of 1 2] by simp
  moreover have "rs ! 3 = (fst (rs ! 0), [])"
    using rep [rule_format, of 0 3] by simp
  ultimately have 1: "\<exists>rs q'. owningPkgs two_backends ?ps = Inr (rs, q') \<and>
      rs ! 2 = (fst (rs ! 1), []) \<and> rs ! 3 = (fst (rs ! 0), [])"
    using run by blast
  have 4: "\<exists>q'. owningPkgs two_backends ?ps =
      Inr ([(''pkgA'', [backendA]), (''pkgA'', [backendA]), (''pkgA'', []), (''pkgA'', [])], q')"
    by (simp add: two_backends_def getOwningPackage_def QCache_contains_def QCache_object_def
        QCache_insert_def QCache_remove_def QCache_setMaxCost_def QCache_new_def trim_stop
        totalCost_def CACHE_SIZE_def CACHE_COST_def backendA_def backendB_def fakePkgManager_def
        Let_def)
  have m: "mx (cache cached_state) = CACHE_SIZE"
    by (simp add: cached_state_def two_backends_def QCache_setMaxCost_def)
  have h: "QCache_contains (cache cached_state) ''/bin/sh''"
    by (simp add: cached_state_def QCache_contains_def)
  have o: "fst (QCache_object (cache cached_state) ''/bin/sh'') = Some ''pkgA''"
    by (simp add: cached_state_def QCache_object_def)
  have 2: "\<exists>q'. getOwningPackage cached_state ''/bin/sh'' = Inr (''pkgA'', [], q')"
    using ownership_cached [of two_backends lru "[]" cached_state "''/bin/sh''",
        THEN conjunct2, rule_format, OF m] h o by auto
  have m': "mx (cache two_backends) = CACHE_SIZE"
    by (simp add: two_backends_def QCache_setMaxCost_def)
  have n: "\<not> QCache_contains (cache two_backends) ''/bin/sh''"
    by (simp add: two_backends_def QCache_contains_def QCache_setMaxCost_def QCache_new_def
        trim_stop)
  have p: "take 1 (pkgManagers two_backends) = [backendA]"
    by (simp add: two_backends_def)
  have 3: "\<exists>pkg called q'. getOwningPackage two_backends ''/bin/sh'' = Inr (pkg, called, q') \<and>
      take 1 called = [backendA]"
    using ownership_cached [of two_backends lru "[]" two_backends "''/bin/sh''",
        THEN conjunct2, rule_format, OF m'] n p by auto
  show ?thesis using f c 1 4 m h 2 n 3 by blast
qed

text \<open>
  Claim C1 as it is written fails. On a Debian system \<^verbatim>\<open>/usr/bin/ls\<close> is
  looked up, then 500 other paths, then \<^verbatim>\<open>/usr/bin/ls\<close> again: the 500th of
  the other paths has pushed it out of the cache, and the second lookup calls
  dpkg again.
\<close>

theorem ownership_requeried_counterexample:
  "(case owningPkgs (PkgQuery_new lru dpkg_system) (''/usr/bin/ls'' # other_paths 500) of
      Inl e \<Rightarrow> False
    | Inr (rs, q) \<Rightarrow>
        (case getOwningPackage q ''/usr/bin/ls'' of
           Inl e \<Rightarrow> False
         | Inr (pkg, called, q') \<Rightarrow> called = [DpkgPkgManager dpkg_system]))"
proof -
  let ?q0 = "PkgQuery_new lru dpkg_system"
  let ?ps = "''/usr/bin/ls'' # other_paths 500"
  have ok: "cache_ok (cache ?q0)"
    by (simp add: cache_PkgQuery_new cache_ok_new)
  have empty: "nodes (cache ?q0) = []"
    by (simp add: cache_PkgQuery_new QCache_setMaxCost_def QCache_new_def trim_stop)
  have pol: "victim (cache ?q0) = lru"
    by (simp add: cache_PkgQuery_new QCache_setMaxCost_def QCache_new_def)
  have d: "distinct ?ps"
    using distinct_other_paths usr_bin_ls_other by simp
  have "set ?ps \<inter> fst ` set (nodes (cache ?q0)) = {}"
    using empty by simp
  then obtain rs q where run: "owningPkgs ?q0 ?ps = Inr (rs, q)"
    and mgrs: "pkgManagers q = pkgManagers ?q0"
    and keys': "victim (cache ?q0) = lru \<longrightarrow>
        map fst (nodes (cache q)) = take 500 (rev ?ps @ map fst (nodes (cache ?q0)))"
    using owningPkgs_distinct [OF ok d] by blast
  have keys: "map fst (nodes (cache q)) = take 500 (rev ?ps @ map fst (nodes (cache ?q0)))"
    using keys' pol by blast
  have "length (other_paths 500) = 500" by (simp add: other_paths_def)
  then have "map fst (nodes (cache q)) = rev (other_paths 500)"
    using keys empty by simp
  then have "''/usr/bin/ls'' \<notin> fst ` set (nodes (cache q))"
    using usr_bin_ls_other [of 500] by (metis list.set_map set_rev)
  then have none: "map_of (nodes (cache q)) ''/usr/bin/ls'' = None"
    by (simp add: map_of_eq_None_iff)
  have "snd (getOwningPackage_loop (pkgManagers q) ''/usr/bin/ls'' [] []) =
      [DpkgPkgManager dpkg_system]"
    using mgrs pkgManagers_dpkg_system Dpkg_owningPkg_dpkg_system
    by (simp add: DpkgPkgManager_def)
  then show ?thesis
    using run getOwningPackage_miss [OF none] by simp
qed

text \<open>
  Claim C2. On a cache miss \<^verbatim>\<open>getOwningPackage\<close> calls the back ends in the
  order of the list up to and including the first one whose \<^verbatim>\<open>owningPkg\<close> is
  not empty and returns that answer; when all answers are empty it has called
  every back end and returns the empty string. The value returned is then in
  the cache under the path.
\<close>

theorem ownership_miss:
  assumes "\<not> QCache_contains (cache q) path" and "mx (cache q) = CACHE_SIZE"
    and "asked = takeWhile (\<lambda>m. owningPkg m path = []) (pkgManagers q)"
  shows "\<exists>q'. getOwningPackage q path =
           Inr (case find (\<lambda>m. owningPkg m path \<noteq> []) (pkgManagers q) of
                  None \<Rightarrow> ('''', pkgManagers q, q')
                | Some m \<Rightarrow> (owningPkg m path, asked @ [m], q')) \<and>
           QCache_contains (cache q') path \<and>
           fst (QCache_object (cache q') path) =
             Some (case find (\<lambda>m. owningPkg m path \<noteq> []) (pkgManagers q) of
                     None \<Rightarrow> '''' | Some m \<Rightarrow> owningPkg m path)"
proof -
  let ?L = "getOwningPackage_loop (pkgManagers q) path [] []"
  let ?q' = "q\<lparr>cache := snd (QCache_insert (cache q) path (fst ?L) CACHE_COST)\<rparr>"
  have none: "map_of (nodes (cache q)) path = None"
    using assms(1) by (cases "map_of (nodes (cache q)) path") (auto simp: QCache_contains_def)
  have run: "getOwningPackage q path = Inr (fst ?L, snd ?L, ?q')"
    using none by (rule getOwningPackage_miss)
  have stored: "map_of (nodes (cache ?q')) path = Some (fst ?L, CACHE_COST)"
    using map_of_insert [OF assms(2), of path "fst ?L"] by simp
  have L: "?L = (case find (\<lambda>m. owningPkg m path \<noteq> []) (pkgManagers q) of
                  None \<Rightarrow> ('''', pkgManagers q)
                | Some m \<Rightarrow> (owningPkg m path, asked @ [m]))"
    unfolding assms(3) getOwningPackage_loop_eq by (simp split: option.splits)
  have "QCache_contains (cache ?q') path"
    using stored by (simp add: QCache_contains_def)
  moreover have "fst (QCache_object (cache ?q') path) = Some (fst ?L)"
    using stored by (simp add: QCache_object_def)
  ultimately show ?thesis
    using run L by (auto split: option.splits)
qed

text \<open>
  The theorem at \<open>two_backends\<close>: both back ends would answer, the first
  one is asked and its answer returned, the second one is not called.
\<close>

theorem ownership_miss_witness:
  "\<not> QCache_contains (cache two_backends) ''/bin/sh'' \<and>
   mx (cache two_backends) = CACHE_SIZE \<and>
   (\<exists>q'. getOwningPackage two_backends ''/bin/sh'' = Inr (''pkgA'', [backendA], q') \<and>
      fst (QCache_object (cache q') ''/bin/sh'') = Some ''pkgA'')"
proof -
  have n: "\<not> QCache_contains (cache two_backends) ''/bin/sh''"
    by (simp add: two_backends_def QCache_contains_def QCache_setMaxCost_def QCache_new_def
        trim_stop)
  have m: "mx (cache two_backends) = CACHE_SIZE"
    by (simp add: two_backends_def QCache_setMaxCost_def)
  have a: "[] = takeWhile (\<lambda>m. owningPkg m ''/bin/sh'' = []) (pkgManagers two_backends)"
    by (simp add: two_backends_def backendA_def fakePkgManager_def)
  have f: "find (\<lambda>m. owningPkg m ''/bin/sh'' \<noteq> []) (pkgManagers two_backends) = Some backendA"
    by (simp add: two_backends_def backendA_def fakePkgManager_def)
  have o: "owningPkg backendA ''/bin/sh'' = ''pkgA''"
    by (simp add: backendA_def fakePkgManager_def)
  show ?thesis using ownership_miss [OF n m a] n m f o by auto
qed

text \<open>
  Claim C3. The constructor probes dpkg, rpm and pacman in this order. The
  list of back ends it leaves is the primary ones among the three, in the order
  of the probes, followed by those that are not primary but available, in the
  order of the probes; a back end that is neither primary nor available is not
  in the list.
\<close>

theorem registry_order:
  assumes "probes = [DpkgPkgManager sys, RpmPkgManager_obj sys (RpmPkgManager_new sys),
                     PacManPkgManager sys]"
  shows "pkgManagers (PkgQuery_new pol sys) =
           filter isPrimaryPkgManager probes @
           filter (\<lambda>m. \<not> isPrimaryPkgManager m \<and> isAvailable m) probes \<and>
         secondaryPkgManagers (PkgQuery_new pol sys) = [] \<and>
         (\<forall>m \<in> set probes. \<not> isPrimaryPkgManager m \<and> \<not> isAvailable m \<longrightarrow>
            m \<notin> set (pkgManagers (PkgQuery_new pol sys)))"
  unfolding assms
  by (auto simp: PkgQuery_new_def checkPkgManagers_def checkPkgManager_def Let_def)

text \<open>
  The theorem at \<open>rpm_system\<close>: rpm is primary and comes first although dpkg
  is probed before it; dpkg is only available and comes second; pacman is
  neither and is dropped.
\<close>

theorem registry_order_witness:
  "pkgManagers (PkgQuery_new lru rpm_system) =
     [RpmPkgManager_obj rpm_system (RpmPkgManager_new rpm_system), DpkgPkgManager rpm_system] \<and>
   \<not> isPrimaryPkgManager (PacManPkgManager rpm_system) \<and>
   \<not> isAvailable (PacManPkgManager rpm_system) \<and>
   PacManPkgManager rpm_system \<notin> set (pkgManagers (PkgQuery_new lru rpm_system))"
proof -
  have d: "\<not> isPrimaryPkgManager (DpkgPkgManager rpm_system)"
    "isAvailable (DpkgPkgManager rpm_system)"
    by (simp_all add: DpkgPkgManager_def Dpkg_isPrimaryPkgManager_def Dpkg_isAvailable_def
        rpm_system_def)
  have r: "isPrimaryPkgManager (RpmPkgManager_obj rpm_system (RpmPkgManager_new rpm_system))"
    by (simp add: RpmPkgManager_obj_def Rpm_isPrimaryPkgManager_def RpmPkgManager_new_def
        rpm_system_def)
  have p: "\<not> isPrimaryPkgManager (PacManPkgManager rpm_system)"
    "\<not> isAvailable (PacManPkgManager rpm_system)"
    by (simp_all add: PacManPkgManager_def PacMan_isPrimaryPkgManager_def
        PacMan_isAvailable_def rpm_system_def)
  note reg = registry_order [OF refl, of lru rpm_system]
  have 1: "pkgManagers (PkgQuery_new lru rpm_system) =
      [RpmPkgManager_obj rpm_system (RpmPkgManager_new rpm_system), DpkgPkgManager rpm_system]"
    using reg d r p by simp
  have "PacManPkgManager rpm_system \<in> set [DpkgPkgManager rpm_system,
      RpmPkgManager_obj rpm_system (RpmPkgManager_new rpm_system), PacManPkgManager rpm_system]"
    by simp
  then have 2: "PacManPkgManager rpm_system \<notin> set (pkgManagers (PkgQuery_new lru rpm_system))"
    using reg [THEN conjunct2, THEN conjunct2, THEN bspec] p by blast
  show ?thesis using 1 2 p by blast
qed

text \<open>
  Claim C4. Starting from the empty cache the constructor makes, whatever
  entry the cache chooses to evict: after the lookup of 600 distinct paths
  exactly 500 paths are resident; after each of the 600 lookups at most 500
  are; and after any lookups whatsoever at most 500 are, each under a key of
  its own.
\<close>

theorem cache_bound:
  assumes "cache q0 = QCache_setMaxCost (QCache_new pol) CACHE_SIZE"
    and "distinct paths" and "length paths = 600"
  shows "(\<exists>rs q. owningPkgs q0 paths = Inr (rs, q) \<and>
            length (nodes (cache q)) = 500 \<and> distinct (map fst (nodes (cache q)))) \<and>
         (\<forall>k \<le> 600. \<exists>rs q. owningPkgs q0 (take k paths) = Inr (rs, q) \<and>
            length (nodes (cache q)) \<le> 500) \<and>
         (\<forall>ps. \<exists>rs q. owningPkgs q0 ps = Inr (rs, q) \<and>
            length (nodes (cache q)) \<le> 500 \<and> distinct (map fst (nodes (cache q))))"
proof -
  have ok: "cache_ok (cache q0)"
    unfolding assms(1) by (rule cache_ok_new)
  have empty: "nodes (cache q0) = []"
    unfolding assms(1) by (simp add: QCache_setMaxCost_def QCache_new_def trim_stop)
  have any: "\<exists>rs q. owningPkgs q0 ps = Inr (rs, q) \<and>
            length (nodes (cache q)) \<le> 500 \<and> distinct (map fst (nodes (cache q)))" for ps
    using owningPkgs_ok [OF ok, of ps] by (auto simp: cache_ok_def CACHE_SIZE_def)
  have "set paths \<inter> fst ` set (nodes (cache q0)) = {}"
    using empty by simp
  then obtain rs q where "owningPkgs q0 paths = Inr (rs, q)" and "cache_ok (cache q)"
    and "length (nodes (cache q)) = min (length (nodes (cache q0)) + length paths) 500"
    using owningPkgs_distinct [OF ok assms(2)] by blast
  then have "\<exists>rs q. owningPkgs q0 paths = Inr (rs, q) \<and>
            length (nodes (cache q)) = 500 \<and> distinct (map fst (nodes (cache q)))"
    using empty assms(3) by (auto simp: cache_ok_def)
  then show ?thesis using any by blast
qed

text \<open>
  The theorem for the object made on \<open>dpkg_system\<close> with Qt's cache and the
  600 paths \<^verbatim>\<open>/\<close>, \<^verbatim>\<open>/a\<close>, \<^verbatim>\<open>/aa\<close> and so on.
\<close>

theorem cache_bound_witness:
  "cache (PkgQuery_new lru dpkg_system) = QCache_setMaxCost (QCache_new lru) CACHE_SIZE \<and>
   distinct (other_paths 600) \<and> length (other_paths 600) = 600 \<and>
   (\<exists>rs q. owningPkgs (PkgQuery_new lru dpkg_system) (other_paths 600) = Inr (rs, q) \<and>
      length (nodes (cache q)) = 500)"
proof -
  have c: "cache (PkgQuery_new lru dpkg_system) = QCache_setMaxCost (QCache_new lru) CACHE_SIZE"
    by (rule cache_PkgQuery_new)
  have d: "distinct (other_paths 600)"
    by (rule distinct_other_paths)
  have l: "length (other_paths 600) = 600"
    by (simp add: other_paths_def)
  show ?thesis using cache_bound [OF c d l] c d l by blast
qed

text \<open>
  Claim C5. \<^verbatim>\<open>getInstalledPkg\<close> is the concatenation of the lists of all
  back ends, in the order of the back ends, each list as the back end gave it.
  Nothing is removed: a package occurs in the result as often as it occurs in
  all the lists together.
\<close>

theorem installedPkg_concat:
  "getInstalledPkg q = concat (map installedPkg (pkgManagers q)) \<and>
   count_list (getInstalledPkg q) x =
     sum_list (map (\<lambda>m. count_list (installedPkg m) x) (pkgManagers q))"
  by (simp add: getInstalledPkg_def getInstalledPkg_loop_eq count_list_concat comp_def)

text \<open>
  The theorem at \<open>two_backends\<close>, where both back ends report the same
  package: it is in the result twice.
\<close>

theorem installedPkg_concat_witness:
  "getInstalledPkg two_backends =
     [PkgInfo_new ''x'' ''1.0'' ''amd64'', PkgInfo_new ''x'' ''1.0'' ''amd64''] \<and>
   count_list (getInstalledPkg two_backends) (PkgInfo_new ''x'' ''1.0'' ''amd64'') = 2"
  using installedPkg_concat [of two_backends "PkgInfo_new ''x'' ''1.0'' ''amd64''"]
  by (simp add: two_backends_def backendA_def backendB_def fakePkgManager_def)

text \<open>
  Claim C6. \<^verbatim>\<open>getFileList\<close> calls the back ends in the order of the list up
  to and including the first one whose file list is not empty and returns that
  list; when every list is empty it returns the empty list. With back ends
  that return nothing, nothing and \<^verbatim>\<open>a\<close>, \<^verbatim>\<open>b\<close> the result is \<^verbatim>\<open>a\<close>, \<^verbatim>\<open>b\<close>.
\<close>

theorem fileList_first_nonempty:
  "getFileList q pkg =
     (case find (\<lambda>m. fileList m pkg \<noteq> []) (pkgManagers q) of
        None \<Rightarrow> ([], pkgManagers q)
      | Some m \<Rightarrow> (fileList m pkg,
                   takeWhile (\<lambda>m. fileList m pkg = []) (pkgManagers q) @ [m])) \<and>
   (map (\<lambda>m. fileList m pkg) (pkgManagers q) = [[], [], [''a'', ''b'']] \<longrightarrow>
      getFileList q pkg = ([''a'', ''b''], pkgManagers q))"
proof -
  have 1: "getFileList q pkg =
     (case find (\<lambda>m. fileList m pkg \<noteq> []) (pkgManagers q) of
        None \<Rightarrow> ([], pkgManagers q)
      | Some m \<Rightarrow> (fileList m pkg,
                   takeWhile (\<lambda>m. fileList m pkg = []) (pkgManagers q) @ [m]))"
    by (simp add: getFileList_def getFileList_loop_eq split: option.splits)
  have "getFileList q pkg = ([''a'', ''b''], pkgManagers q)"
    if "map (\<lambda>m. fileList m pkg) (pkgManagers q) = [[], [], [''a'', ''b'']]"
  proof -
    from that obtain m1 m2 m3 where ms: "pkgManagers q = [m1, m2, m3]"
      and "fileList m1 pkg = []" "fileList m2 pkg = []" "fileList m3 pkg = [''a'', ''b'']"
      by (auto simp: map_eq_Cons_conv)
    then show ?thesis by (simp add: getFileList_def)
  qed
  then show ?thesis using 1 by blast
qed

text \<open>
  The theorem at \<open>three_backends\<close> of the specification's example, and at
  \<open>two_backends\<close>, none of which has a file list.
\<close>

theorem fileList_first_nonempty_witness:
  "map (\<lambda>m. fileList m (PkgInfo_new ''x'' ''1.0'' ''amd64'')) (pkgManagers three_backends) =
     [[], [], [''a'', ''b'']] \<and>
   getFileList three_backends (PkgInfo_new ''x'' ''1.0'' ''amd64'') =
     ([''a'', ''b''], [backendA, backendB, backendC]) \<and>
   getFileList two_backends (PkgInfo_new ''x'' ''1.0'' ''amd64'') = ([], [backendA, backendB])"
proof -
  have m: "map (\<lambda>m. fileList m (PkgInfo_new ''x'' ''1.0'' ''amd64''))
      (pkgManagers three_backends) = [[], [], [''a'', ''b'']]"
    by (simp add: three_backends_def backendA_def backendB_def backendC_def fakePkgManager_def)
  have p: "pkgManagers three_backends = [backendA, backendB, backendC]"
    by (simp add: three_backends_def)
  have t: "find (\<lambda>m. fileList m (PkgInfo_new ''x'' ''1.0'' ''amd64'') \<noteq> [])
      (pkgManagers two_backends) = None" "pkgManagers two_backends = [backendA, backendB]"
    by (simp_all add: two_backends_def backendA_def backendB_def fakePkgManager_def)
  show ?thesis
    using fileList_first_nonempty [of three_backends "PkgInfo_new ''x'' ''1.0'' ''amd64''"]
      fileList_first_nonempty [of two_backends "PkgInfo_new ''x'' ''1.0'' ''amd64''"] m p t
    by simp
qed

text \<open>
  Claim C7. \<^verbatim>\<open>owningPkg\<close> of dpkg, rpm and pacman returns the empty string
  when the command exits with a code other than 0 or its output has the marker
  of the back end as a substring. The functions return a string in every case;
  there is no error to raise.
\<close>

theorem owningPkg_failure_empty:
  "(runCommand sys ''/usr/bin/dpkg'' [''-S'', path] = (output, exitCode) \<and>
    (exitCode \<noteq> 0 \<or> (\<exists>pre post. output = pre @ ''no path found matching pattern'' @ post))
      \<longrightarrow> Dpkg_owningPkg sys path = '''') \<and>
   (runCommand sys (rpmCommand rpm) [''-qf'', ''--queryformat'', ''%{NAME}'', path] =
      (output, exitCode) \<and>
    (exitCode \<noteq> 0 \<or> (\<exists>pre post. output = pre @ ''not owned by any package'' @ post))
      \<longrightarrow> Rpm_owningPkg sys rpm path = '''') \<and>
   (runCommand sys ''/usr/bin/pacman'' [''-Qo'', path] = (output, exitCode) \<and>
    (exitCode \<noteq> 0 \<or> (\<exists>pre post. output = pre @ ''No package owns'' @ post))
      \<longrightarrow> PacMan_owningPkg sys path = '''')"
  unfolding Dpkg_owningPkg_def Rpm_owningPkg_def PacMan_owningPkg_def
    QString_contains_iff [symmetric]
  by simp

text \<open>
  The theorem at \<open>bare_system\<close>, where each command exits with code 1 and
  prints its marker.
\<close>

theorem owningPkg_failure_empty_witness:
  "runCommand bare_system ''/usr/bin/dpkg'' [''-S'', ''/nowhere''] =
     (''dpkg-query: no path found matching pattern /nowhere'', 1) \<and>
   Dpkg_owningPkg bare_system ''/nowhere'' = '''' \<and>
   Rpm_owningPkg bare_system (RpmPkgManager_new bare_system) ''/nowhere'' = '''' \<and>
   PacMan_owningPkg bare_system ''/nowhere'' = ''''"
proof -
  have d: "runCommand bare_system ''/usr/bin/dpkg'' [''-S'', ''/nowhere''] =
      (''dpkg-query: no path found matching pattern /nowhere'', 1)"
    by (simp add: bare_system_def)
  have r: "runCommand bare_system (rpmCommand (RpmPkgManager_new bare_system))
      [''-qf'', ''--queryformat'', ''%{NAME}'', ''/nowhere''] =
      (''file /nowhere is not owned by any package'', 1)"
    by (simp add: bare_system_def RpmPkgManager_new_def)
  have p: "runCommand bare_system ''/usr/bin/pacman'' [''-Qo'', ''/nowhere''] =
      (''error: No package owns /nowhere'', 1)"
    by (simp add: bare_system_def)
  have "Dpkg_owningPkg bare_system ''/nowhere'' = ''''"
    using owningPkg_failure_empty [of bare_system "''/nowhere''"
        "''dpkg-query: no path found matching pattern /nowhere''" 1] d by simp
  moreover have "Rpm_owningPkg bare_system (RpmPkgManager_new bare_system) ''/nowhere'' = ''''"
    using owningPkg_failure_empty [of bare_system "''/nowhere''"
        "''file /nowhere is not owned by any package''" 1 "RpmPkgManager_new bare_system"] r
    by simp
  moreover have "PacMan_owningPkg bare_system ''/nowhere'' = ''''"
    using owningPkg_failure_empty [of bare_system "''/nowhere''"
        "''error: No package owns /nowhere''" 1] p by simp
  ultimately show ?thesis using d by simp
qed

text \<open>
  Claim C8, as amended. \<^verbatim>\<open>parsePkgList\<close> cuts the output at every line feed
  and every line at every blank, keeping empty fields. A line that is not
  empty and has exactly three such fields, which is to say exactly two blanks,
  gives one record of the first field as name, the second as architecture and
  the third as version; every other line is skipped. The records come in the
  order of the lines. The output of the example gives the two records of pkgA
  and pkgB.
\<close>

theorem parsePkgList_fields:
  "Dpkg_parsePkgList output =
     map (\<lambda>line. PkgInfo_new (QString_split (CHR '' '') line ! 0)
                              (QString_split (CHR '' '') line ! 2)
                              (QString_split (CHR '' '') line ! 1))
         (filter (\<lambda>line. line \<noteq> [] \<and> length (QString_split (CHR '' '') line) = 3)
                 (QString_split (CHR 0x0A) output)) \<and>
   (length (QString_split (CHR '' '') line) = 3) = (count_list line (CHR '' '') = 2) \<and>
   Dpkg_parsePkgList ''pkgA amd64 1.0\<newline>GARBAGE\<newline>pkgB amd64 2.0'' =
     [PkgInfo_new ''pkgA'' ''1.0'' ''amd64'', PkgInfo_new ''pkgB'' ''2.0'' ''amd64'']"
proof -
  have "Dpkg_parsePkgList ''pkgA amd64 1.0\<newline>GARBAGE\<newline>pkgB amd64 2.0'' =
     [PkgInfo_new ''pkgA'' ''1.0'' ''amd64'', PkgInfo_new ''pkgB'' ''2.0'' ''amd64'']"
    by (simp add: Dpkg_parsePkgList_def)
  then show ?thesis
    by (simp add: Dpkg_parsePkgList_def Dpkg_parseLines_eq length_QString_split)
qed

text \<open>
  The theorem at a line without an architecture: the two blanks make three
  fields, the one in the middle empty, and the line gives a record.
\<close>

theorem parsePkgList_fields_witness:
  "Dpkg_parsePkgList ''pkgA  1.0'' = [PkgInfo_new ''pkgA'' ''1.0'' '''']"
  using parsePkgList_fields [of "''pkgA  1.0''"] by simp

text \<open>
  Claim C8 as it is written fails. A line whose three fields are separated by
  tabs has three whitespace-separated fields, yet \<^verbatim>\<open>parsePkgList\<close> finds a
  single field in it and skips the line.
\<close>

theorem parsePkgList_tab_counterexample:
  "Dpkg_parsePkgList tab_line = [] \<and>
   spec_parsePkgList tab_line = [PkgInfo_new ''pkgA'' ''1.0'' ''amd64'']"
  by (simp add: Dpkg_parsePkgList_def spec_parsePkgList_def spec_fields_def tab_line_def
      isSpace_def)

text \<open>
  Claim C9, as amended. When pacman exits with code 0 and its output has no
  \<^verbatim>\<open>No package owns\<close>, \<^verbatim>\<open>owningPkg\<close> drops the output up to and including
  its last \<^verbatim>\<open>is owned by \<close> and returns what follows up to the first blank, or
  all of it when there is no blank. For the output
  \<^verbatim>\<open>/usr/bin/pacman is owned by pacman 5.1.1-3\<close> this is \<^verbatim>\<open>pacman\<close>.
\<close>

theorem pacman_owner:
  assumes "runCommand sys ''/usr/bin/pacman'' [''-Qo'', path] = (output, 0)"
    and "\<not> QString_contains output ''No package owns''"
  shows "(output = pre @ ''is owned by '' @ rest \<and> \<not> QString_contains rest ''is owned by ''
            \<longrightarrow> PacMan_owningPkg sys path = takeWhile (\<lambda>c. c \<noteq> CHR '' '') rest) \<and>
         (output = ''/usr/bin/pacman is owned by pacman 5.1.1-3''
            \<longrightarrow> PacMan_owningPkg sys path = ''pacman'')"
proof -
  have run: "PacMan_owningPkg sys path =
      takeWhile (\<lambda>c. c \<noteq> CHR '' '') (QString_remove_upto ''is owned by '' output)"
    using assms by (simp add: PacMan_owningPkg_def QString_split_hd)
  have strip: "QString_remove_upto ''is owned by '' (p @ ''is owned by '' @ r) = r"
    if "\<not> QString_contains r ''is owned by ''" for p r
  proof -
    have "\<not> QString_contains (tl (''is owned by '' @ r)) ''is owned by ''"
      using that by (rule owned_by_no_overlap)
    then have "greedyPrefixRest ''is owned by '' (tl (''is owned by '' @ r)) = None"
      by (intro greedyPrefixRest_None) simp_all
    then have "greedyPrefixRest ''is owned by '' (p @ ''is owned by '' @ r) = Some r"
      by (rule greedyPrefixRest_append) simp
    then show ?thesis by (simp add: QString_remove_upto_def)
  qed
  have 1: "PacMan_owningPkg sys path = takeWhile (\<lambda>c. c \<noteq> CHR '' '') rest"
    if "output = pre @ ''is owned by '' @ rest" "\<not> QString_contains rest ''is owned by ''"
    using run strip [OF that(2), of pre] that(1) by simp
  have 2: "PacMan_owningPkg sys path = ''pacman''"
    if o: "output = ''/usr/bin/pacman is owned by pacman 5.1.1-3''"
  proof -
    have "\<not> QString_contains ''pacman 5.1.1-3'' ''is owned by ''" by simp
    then have "QString_remove_upto ''is owned by ''
        (''/usr/bin/pacman '' @ ''is owned by '' @ ''pacman 5.1.1-3'') = ''pacman 5.1.1-3''"
      by (rule strip)
    then show ?thesis using run o by simp
  qed
  show ?thesis using 1 2 by blast
qed

text \<open>
  The theorem at \<open>pacman_system\<close>, which prints the sample output of the
  comment for \<^verbatim>\<open>/usr/bin/pacman\<close>.
\<close>

theorem pacman_owner_witness:
  "runCommand pacman_system ''/usr/bin/pacman'' [''-Qo'', ''/usr/bin/pacman''] =
     (''/usr/bin/pacman is owned by pacman 5.1.1-3'', 0) \<and>
   \<not> QString_contains ''/usr/bin/pacman is owned by pacman 5.1.1-3'' ''No package owns'' \<and>
   \<not> QString_contains ''pacman 5.1.1-3'' ''is owned by '' \<and>
   PacMan_owningPkg pacman_system ''/usr/bin/pacman'' = ''pacman''"
proof -
  have r: "runCommand pacman_system ''/usr/bin/pacman'' [''-Qo'', ''/usr/bin/pacman''] =
     (''/usr/bin/pacman is owned by pacman 5.1.1-3'', 0)"
    by (simp add: pacman_system_def)
  have n: "\<not> QString_contains ''/usr/bin/pacman is owned by pacman 5.1.1-3'' ''No package owns''"
    by simp
  have m: "\<not> QString_contains ''pacman 5.1.1-3'' ''is owned by ''"
    by simp
  have "PacMan_owningPkg pacman_system ''/usr/bin/pacman'' =
      takeWhile (\<lambda>c. c \<noteq> CHR '' '') ''pacman 5.1.1-3''"
    using pacman_owner [OF r n, of "''/usr/bin/pacman ''" "''pacman 5.1.1-3''"] m by simp
  then show ?thesis using r n m by simp
qed

text \<open>
  Claim C9 as it is written fails. Behind the prefix of the output stands
  \<^verbatim>\<open>pkg\<close>, a tab, and \<^verbatim>\<open>1.0\<close>: the first whitespace-delimited token is
  \<^verbatim>\<open>pkg\<close>, while \<^verbatim>\<open>owningPkg\<close>, which looks for a blank, returns all of it.
\<close>

theorem pacman_tab_counterexample:
  "runCommand pacman_tab_system ''/usr/bin/pacman'' [''-Qo'', ''/p''] =
     (''/p is owned by pkg'' @ [CHR 0x09] @ ''1.0'', 0) \<and>
   PacMan_owningPkg pacman_tab_system ''/p'' = ''pkg'' @ [CHR 0x09] @ ''1.0'' \<and>
   spec_pacmanOwner ''/p'' (''/p is owned by pkg'' @ [CHR 0x09] @ ''1.0'') = Some ''pkg''"
proof -
  have r: "runCommand pacman_tab_system ''/usr/bin/pacman'' [''-Qo'', ''/p''] =
     (''/p is owned by pkg'' @ [CHR 0x09] @ ''1.0'', 0)"
    by (simp add: pacman_tab_system_def)
  have "PacMan_owningPkg pacman_tab_system ''/p'' = ''pkg'' @ [CHR 0x09] @ ''1.0''"
    unfolding PacMan_owningPkg_def r
    by (simp add: QString_section_0_0_def QString_remove_upto_def)
  moreover have "spec_pacmanOwner ''/p'' (''/p is owned by pkg'' @ [CHR 0x09] @ ''1.0'') =
      Some ''pkg''"
    by (simp add: spec_pacmanOwner_def spec_fields_def isSpace_def Let_def)
  ultimately show ?thesis using r by simp
qed

text \<open>
  Claim C10. The constructor of \<^verbatim>\<open>RpmPkgManager\<close> sets the command to
  \<^verbatim>\<open>/usr/bin/rpm\<close> when this binary exists and to \<^verbatim>\<open>/bin/rpm\<close> otherwise, so it
  is never empty. The three methods work with the command the object holds, on
  whatever system they run, and do not look for the binary again.
\<close>

theorem rpmCommand_resolved:
  assumes "rpm = RpmPkgManager_new sys0"
    and "cmd = (if haveCommand sys0 ''/usr/bin/rpm'' then ''/usr/bin/rpm'' else ''/bin/rpm'')"
  shows "rpmCommand rpm = cmd \<and> cmd \<noteq> [] \<and>
         Rpm_isPrimaryPkgManager sys rpm =
           tryRunCommand sys (cmd @ '' -qf '' @ cmd) ''^rpm.*'' \<and>
         Rpm_isAvailable sys rpm = haveCommand sys cmd \<and>
         Rpm_owningPkg sys rpm path =
           (case runCommand sys cmd [''-qf'', ''--queryformat'', ''%{NAME}'', path] of
              (output, exitCode) \<Rightarrow>
                if exitCode \<noteq> 0 \<or> QString_contains output ''not owned by any package''
                then '''' else output)"
  unfolding assms
  by (simp add: RpmPkgManager_new_def Rpm_isPrimaryPkgManager_def Rpm_isAvailable_def
      Rpm_owningPkg_def)

text \<open>
  The theorem for an object made on \<open>bare_system\<close>, where no binary exists,
  and used on \<open>rpm_system\<close>, which only has \<^verbatim>\<open>/usr/bin/rpm\<close>: the command
  stays \<^verbatim>\<open>/bin/rpm\<close> and rpm is not available.
\<close>

theorem rpmCommand_resolved_witness:
  "rpmCommand (RpmPkgManager_new bare_system) = ''/bin/rpm'' \<and>
   \<not> Rpm_isAvailable rpm_system (RpmPkgManager_new bare_system) \<and>
   \<not> Rpm_isPrimaryPkgManager rpm_system (RpmPkgManager_new bare_system)"
proof -
  have c: "''/bin/rpm'' =
      (if haveCommand bare_system ''/usr/bin/rpm'' then ''/usr/bin/rpm'' else ''/bin/rpm'')"
    by (simp add: bare_system_def)
  show ?thesis
    using rpmCommand_resolved [OF refl c, of rpm_system]
    by (simp add: rpm_system_def)
qed

end
